theory Spec2Isabelle
  imports Complex_Main "HOL-Library.AList"
begin

section \<open>Molty Royale bot: decision engine and region memory\<close>

text \<open>
  A shallow embedding of the decision core of \<^verbatim>\<open>src/bot.py\<close>: the data classes
  \<^verbatim>\<open>Weapon\<close>, \<^verbatim>\<open>Enemy\<close>, \<^verbatim>\<open>Zone\<close>, \<^verbatim>\<open>GameState\<close>, the class \<^verbatim>\<open>RegionMemory\<close> and the class
  \<^verbatim>\<open>DecisionEngine\<close>.

  Conventions of the embedding.
  \<^item> A Python \<^verbatim>\<open>float\<close> is a \<^typ>\<open>real\<close>: comparisons and arithmetic are exact; rounding,
    infinities and NaN are outside the model. A Python \<^verbatim>\<open>int\<close> is an \<^typ>\<open>int\<close>.
  \<^item> A raised exception is a value: fallible functions return \<open>py_error + 'a\<close>, with
    \<open>Inl\<close> for the exception. The only exception the modelled code can raise is
    \<^verbatim>\<open>ZeroDivisionError\<close>, from a float division.
  \<^item> A \<^verbatim>\<open>dict\<close> whose iteration order is read (\<^verbatim>\<open>RegionMemory._rvs\<close>) is an association
    list in insertion order; the other dictionaries are maps.
  \<^item> Logging has no effect on results and is left out.
  \<^item> Fields of \<^verbatim>\<open>Weapon\<close>, \<^verbatim>\<open>Enemy\<close> and \<^verbatim>\<open>Zone\<close> carry the prefixes \<open>w_\<close>, \<open>e_\<close> and \<open>z_\<close>,
    since several classes share field names (\<^verbatim>\<open>dps\<close>, \<^verbatim>\<open>hp\<close>, \<^verbatim>\<open>distance\<close>).
\<close>

subsection \<open>Python primitives\<close>

datatype py_error = ZeroDivisionError

text \<open>Float division \<^verbatim>\<open>a / b\<close>: raises on a zero divisor.\<close>

definition py_div :: "real \<Rightarrow> real \<Rightarrow> py_error + real" where
  "py_div a b = (if b = 0 then Inl ZeroDivisionError else Inr (a / b))"

text \<open>\<^verbatim>\<open>d.get(k, default)\<close> on an insertion-ordered dictionary and on a map.\<close>

definition dict_get :: "('k \<times> 'v) list \<Rightarrow> 'k \<Rightarrow> 'v \<Rightarrow> 'v" where
  "dict_get d k dflt = (case map_of d k of None \<Rightarrow> dflt | Some v \<Rightarrow> v)"

definition map_get :: "('k \<rightharpoonup> 'v) \<Rightarrow> 'k \<Rightarrow> 'v \<Rightarrow> 'v" where
  "map_get d k dflt = (case d k of None \<Rightarrow> dflt | Some v \<Rightarrow> v)"

text \<open>
  \<^verbatim>\<open>max(x0, x1, ..., key=key)\<close> on a non-empty sequence, as CPython computes it: the running
  maximum is replaced only by an item whose key is strictly greater, so the first of
  several maximal items is returned. \<open>max_from key best xs\<close> is the loop after the first
  item \<open>best\<close> has been taken.
\<close>

fun max_from :: "('a \<Rightarrow> real) \<Rightarrow> 'a \<Rightarrow> 'a list \<Rightarrow> 'a" where
  "max_from key best [] = best"
| "max_from key best (x # xs) = max_from key (if key x > key best then x else best) xs"

text \<open>\<^verbatim>\<open>str.lower()\<close> on ASCII text.\<close>

definition lower_char :: "char \<Rightarrow> char" where
  "lower_char c =
     dict_get (zip ''ABCDEFGHIJKLMNOPQRSTUVWXYZ'' ''abcdefghijklmnopqrstuvwxyz'') c c"

definition lower :: "string \<Rightarrow> string" where
  "lower s = map lower_char s"

subsection \<open>Constants\<close>

datatype State = IDLE | ROOM_SCAN | IN_LOBBY | ZONE_ESCAPE | WEAPON_HUNT | EXPLORING
  | TARGET_LOCK | COMBAT | LOOTING | HEALING | DEAD | VICTORY

definition WIN_PROB_ENGAGE :: real where "WIN_PROB_ENGAGE = 0.60"
definition WIN_PROB_DISENGAGE :: real where "WIN_PROB_DISENGAGE = 0.55"
definition ESCAPE_PROB_MAX :: real where "ESCAPE_PROB_MAX = 0.40"
definition WEAPON_UPGRADE_PCT :: real where "WEAPON_UPGRADE_PCT = 0.15"
definition SAFE_PATH_MIN :: real where "SAFE_PATH_MIN = 0.65"
definition ZONE_CHASE_MAX_SEC :: real where "ZONE_CHASE_MAX_SEC = 3.0"
definition ZONE_ESCAPE_MIN :: real where "ZONE_ESCAPE_MIN = 0.75"

definition HP_USE_HEAL :: real where "HP_USE_HEAL = 60"
definition HP_DISENGAGE :: real where "HP_DISENGAGE = 35"
definition HP_ZONE_ABORT :: real where "HP_ZONE_ABORT = 60"

definition MAX_HEAL_PER_TYPE :: int where "MAX_HEAL_PER_TYPE = 3"

definition RVS_BASE :: real where "RVS_BASE = 1.0"
definition RVS_FLOOR :: real where "RVS_FLOOR = 0.5"
definition RVS_HIGH_WEAPON :: real where "RVS_HIGH_WEAPON = 0.3"
definition RVS_KILL :: real where "RVS_KILL = 0.2"
definition RVS_FAIL_EXPLORE :: real where "RVS_FAIL_EXPLORE = - 0.3"
definition RVS_ZONE_PRONE :: real where "RVS_ZONE_PRONE = - 0.5"
definition RVS_AMBUSH :: real where "RVS_AMBUSH = - 0.2"

definition TIER_MULT :: "(string \<times> real) list" where
  "TIER_MULT =
     [(''legendary'', 3.0), (''epic'', 2.2), (''rare'', 1.5), (''uncommon'', 1.2),
      (''common'', 1.0), (''fists'', 0.3)]"

definition HEAL_PRIORITY :: "string list" where
  "HEAL_PRIORITY = [''mega_shield'', ''large_medkit'', ''medkit'', ''bandage'', ''small_heal'']"

subsection \<open>Data models\<close>

record Weapon =
  w_name :: string
  w_dps :: real
  w_accuracy :: real
  w_range :: real
  w_tier :: string

definition score :: "Weapon \<Rightarrow> real" where
  "score self =
     (let mult = dict_get TIER_MULT (lower (w_tier self)) 1.0
      in w_dps self * w_accuracy self * w_range self * mult)"

definition is_upgrade_over :: "Weapon \<Rightarrow> Weapon option \<Rightarrow> py_error + bool" where
  "is_upgrade_over self other =
     (case other of
        None \<Rightarrow> Inr True
      | Some other' \<Rightarrow>
          if score other' \<le> 0 then Inr (score self > 0)
          else (case py_div (score self - score other') (score other') of
                  Inl err \<Rightarrow> Inl err
                | Inr q \<Rightarrow> Inr (q \<ge> WEAPON_UPGRADE_PCT)))"

record Enemy =
  e_id :: string
  e_hp :: real
  e_max_hp :: real
  e_dps :: real
  e_distance :: real
  e_in_zone :: bool
  e_position :: "(string \<times> string) list"

text \<open>\<^verbatim>\<open>(self.hp / self.max_hp) * 100 if self.max_hp else 0\<close>: the division runs only on a
  non-zero divisor.\<close>

definition enemy_hp_pct :: "Enemy \<Rightarrow> real" where
  "enemy_hp_pct self = (if e_max_hp self \<noteq> 0 then (e_hp self / e_max_hp self) * 100 else 0)"

record Zone =
  z_distance :: real
  z_shrink_timer :: real
  z_direction :: string
  z_is_safe :: bool
  z_shrink_speed :: real

text \<open>A nearby loot entry is a dictionary taken as is from the wire; its values are
  modelled as strings.\<close>

type_synonym loot = "(string \<times> string) list"

record GameState =
  hp :: real
  max_hp :: real
  balance :: real
  kills :: int
  weapon :: "Weapon option"
  inventory :: "string \<rightharpoonup> int"
  position :: "(string \<times> string) list"
  zone :: Zone
  vision_modifier :: real
  enemies :: "Enemy list"
  loot_nearby :: "loot list"
  weapons_nearby :: "Weapon list"
  current_region :: string
  players_alive :: int
  match_id :: string
  tick :: int
  state :: State
  target_id :: "string option"
  locked_target :: "Enemy option"

definition hp_pct :: "GameState \<Rightarrow> real" where
  "hp_pct self = (if max_hp self \<noteq> 0 then (hp self / max_hp self) * 100 else 0)"

text \<open>The first item of \<open>HEAL_PRIORITY\<close> with a positive count in the inventory.\<close>

definition best_heal :: "GameState \<Rightarrow> string option" where
  "best_heal self = find (\<lambda>item. map_get (inventory self) item 0 > 0) HEAL_PRIORITY"

subsection \<open>Region value system\<close>

text \<open>
  \<^verbatim>\<open>RegionMemory\<close>: \<open>rvs_dict\<close> is \<^verbatim>\<open>_rvs\<close> (region to score, in insertion order, which
  \<^verbatim>\<open>_choose_region\<close> reads), \<open>explores\<close> is \<^verbatim>\<open>_explores\<close> and \<open>loot_found\<close> is \<^verbatim>\<open>_loot_found\<close>.
  Storing under a key keeps the position of a key already present and appends a new one
  (\<open>AList.update\<close>).
\<close>

record RegionMemory =
  rvs_dict :: "(string \<times> real) list"
  explores :: "string \<rightharpoonup> int"
  loot_found :: "string \<rightharpoonup> int"

definition init_memory :: RegionMemory where
  "init_memory = \<lparr> rvs_dict = [], explores = Map.empty, loot_found = Map.empty \<rparr>"

definition rvs :: "RegionMemory \<Rightarrow> string \<Rightarrow> real" where
  "rvs self region = dict_get (rvs_dict self) region RVS_BASE"

definition adjust :: "RegionMemory \<Rightarrow> string \<Rightarrow> real \<Rightarrow> RegionMemory" where
  "adjust self region delta =
     (let old = rvs self region
      in self\<lparr> rvs_dict := AList.update region (max 0.0 (min 2.0 (old + delta))) (rvs_dict self) \<rparr>)"

definition record_explore :: "RegionMemory \<Rightarrow> string \<Rightarrow> int \<Rightarrow> RegionMemory" where
  "record_explore self region found =
     (let self1 = self\<lparr> explores := (explores self)(region \<mapsto> map_get (explores self) region 0 + 1) \<rparr>;
          self2 = self1\<lparr> loot_found :=
                    (loot_found self1)(region \<mapsto> map_get (loot_found self1) region 0 + found) \<rparr>;
          count = map_get (explores self2) region 0;
          total_loot = map_get (loot_found self2) region 0
      in if count \<ge> 2 \<and> total_loot = 0 then adjust self2 region RVS_FAIL_EXPLORE else self2)"

definition delta_map :: "(string \<times> real) list" where
  "delta_map =
     [(''high_tier_weapon'', RVS_HIGH_WEAPON), (''kill'', RVS_KILL),
      (''zone_prone'', RVS_ZONE_PRONE), (''ambush'', RVS_AMBUSH)]"

definition record_event :: "RegionMemory \<Rightarrow> string \<Rightarrow> string \<Rightarrow> RegionMemory" where
  "record_event self region event =
     (let delta = dict_get delta_map event 0
      in if delta \<noteq> 0 then adjust self region delta else self)"

definition is_worthwhile :: "RegionMemory \<Rightarrow> string \<Rightarrow> bool" where
  "is_worthwhile self region \<longleftrightarrow> rvs self region \<ge> RVS_FLOOR"

definition best_region :: "RegionMemory \<Rightarrow> string list \<Rightarrow> string option" where
  "best_region self candidates =
     (let worth = filter (is_worthwhile self) candidates;
          pool = (if worth \<noteq> [] then worth else candidates)
      in case pool of [] \<Rightarrow> None | r # rs \<Rightarrow> Some (max_from (rvs self) r rs))"

text \<open>A call of one of the two recording methods, and a run of such calls in order.\<close>

datatype memory_call = RecordExplore string int | RecordEvent string string

fun run_call :: "RegionMemory \<Rightarrow> memory_call \<Rightarrow> RegionMemory" where
  "run_call self (RecordExplore region found) = record_explore self region found"
| "run_call self (RecordEvent region event) = record_event self region event"

definition run_calls :: "RegionMemory \<Rightarrow> memory_call list \<Rightarrow> RegionMemory" where
  "run_calls self calls = foldl run_call self calls"

subsection \<open>Decision engine\<close>

text \<open>
  The action dictionaries that \<^verbatim>\<open>decide\<close> builds, one constructor per value of the
  \<^verbatim>\<open>"action"\<close> key: \<open>EscapeZone direction priority use_heal\<close> (\<open>use_heal\<close> is \<open>None\<close> when
  the key is absent), \<open>UseItem item\<close>, \<open>MoveToWeapon weapon_name\<close>, \<open>Attack target_id\<close>,
  \<open>MoveToRegion region\<close>, \<open>PickLoot item_id\<close> and \<open>Patrol\<close>.
\<close>

datatype action =
    EscapeZone string string "string option"
  | UseItem "string option"
  | MoveToWeapon string
  | Attack string
  | MoveToRegion string
  | PickLoot "string option"
  | Patrol

text \<open>Truth value of an \<^verbatim>\<open>Optional[str]\<close>: \<^verbatim>\<open>None\<close> and the empty string are false.\<close>

definition truthy :: "string option \<Rightarrow> bool" where
  "truthy v = (case v of None \<Rightarrow> False | Some s \<Rightarrow> s \<noteq> [])"

definition zone_critical :: "GameState \<Rightarrow> bool" where
  "zone_critical gs =
     (if \<not> z_is_safe (zone gs) then True
      else if z_distance (zone gs) < 50 \<and> z_shrink_timer (zone gs) < 10 then True
      else if hp_pct gs < HP_ZONE_ABORT \<and> z_distance (zone gs) < 80 then True
      else False)"

definition zone_escape_action :: "GameState \<Rightarrow> action" where
  "zone_escape_action gs =
     (let direction =
            (if z_direction (zone gs) \<noteq> [] then z_direction (zone gs) else ''safe_zone_center'')
      in if hp_pct gs < 30 \<and> truthy (best_heal gs)
         then EscapeZone direction ''sprint'' (best_heal gs)
         else EscapeZone direction ''sprint'' None)"

definition best_nearby_weapon :: "GameState \<Rightarrow> Weapon option" where
  "best_nearby_weapon gs =
     (case weapons_nearby gs of [] \<Rightarrow> None | w # ws \<Rightarrow> Some (max_from score w ws))"

definition safe_path_prob :: "GameState \<Rightarrow> real" where
  "safe_path_prob gs =
     (let d = z_distance (zone gs)
      in if d > 200 then 0.90 else if d > 100 then 0.75 else if d > 50 then 0.55 else 0.30)"

definition weapon_in_zone_trajectory :: "GameState \<Rightarrow> bool" where
  "weapon_in_zone_trajectory gs \<longleftrightarrow> z_distance (zone gs) < 40 \<and> z_shrink_timer (zone gs) < 8"

definition position_advantage :: "GameState \<Rightarrow> Enemy \<Rightarrow> real" where
  "position_advantage gs enemy = 1.0"

definition win_prob :: "GameState \<Rightarrow> Enemy \<Rightarrow> py_error + real" where
  "win_prob gs enemy =
     (let my_dps = (case weapon gs of Some w \<Rightarrow> w_dps w | None \<Rightarrow> 5.0);
          my_hp = hp gs;
          pos_adv = position_advantage gs enemy;
          vis_adv = (if vision_modifier gs < 0.5 \<and> e_distance enemy > 60
                     then vision_modifier gs * 0.6 else vision_modifier gs);
          e_dps' = max (e_dps enemy) 0.1;
          e_hp' = max (e_hp enemy) 0.1;
          dist_r = max 1.0 (e_distance enemy / 50.0);
          numerator = my_dps * my_hp * pos_adv * vis_adv;
          denominator = e_dps' * e_hp' * dist_r
      in case py_div numerator denominator of
           Inl err \<Rightarrow> Inl err
         | Inr raw \<Rightarrow>
             (case py_div raw (raw + 1.0) of
                Inl err \<Rightarrow> Inl err
              | Inr s \<Rightarrow> Inr (min 1.0 (max 0.0 s))))"

definition enemy_escape_prob :: "Enemy \<Rightarrow> real" where
  "enemy_escape_prob enemy =
     (if enemy_hp_pct enemy < 25 then 0.10
      else if e_distance enemy > 100 then 0.70
      else 0.35)"

text \<open>
  The loop of \<^verbatim>\<open>_select_target\<close> over \<^verbatim>\<open>gs.enemies\<close>, with the loop variables \<open>best\<close> and
  \<open>best_score\<close> as arguments. An exception of \<^verbatim>\<open>_win_prob\<close> leaves the loop.
\<close>

fun select_target_loop ::
  "GameState \<Rightarrow> Enemy list \<Rightarrow> Enemy option \<Rightarrow> real \<Rightarrow> py_error + Enemy option" where
  "select_target_loop gs [] best best_score = Inr best"
| "select_target_loop gs (enemy # rest) best best_score =
     (if e_in_zone enemy then select_target_loop gs rest best best_score
      else
        (case win_prob gs enemy of
           Inl err \<Rightarrow> Inl err
         | Inr wp \<Rightarrow>
             (let ep = enemy_escape_prob enemy
              in if wp \<ge> WIN_PROB_ENGAGE \<and> ep \<le> ESCAPE_PROB_MAX then
                   (let score' = wp * (1.0 - enemy_hp_pct enemy / 100) / max (e_distance enemy) 1
                    in if score' > best_score
                       then select_target_loop gs rest (Some enemy) score'
                       else select_target_loop gs rest best best_score)
                 else select_target_loop gs rest best best_score)))"

definition select_target :: "GameState \<Rightarrow> py_error + Enemy option" where
  "select_target gs = select_target_loop gs (enemies gs) None 0.0"

text \<open>\<^verbatim>\<open>enemy.hp / my_dps if my_dps > 0 else 999.0\<close>: the division runs only on a positive
  divisor.\<close>

definition kill_time :: "GameState \<Rightarrow> Enemy \<Rightarrow> real" where
  "kill_time gs enemy =
     (let my_dps = (case weapon gs of Some w \<Rightarrow> w_dps w | None \<Rightarrow> 5.0)
      in if my_dps > 0 then e_hp enemy / my_dps else 999.0)"

definition self_escape_prob :: "GameState \<Rightarrow> real" where
  "self_escape_prob gs =
     (let d = z_distance (zone gs)
      in if d < 20 then 0.30 else if d < 60 then 0.60 else 0.85)"

definition heal_action :: "GameState \<Rightarrow> action" where
  "heal_action gs = (let item = best_heal gs in UseItem item)"

definition choose_region :: "RegionMemory \<Rightarrow> GameState \<Rightarrow> string option" where
  "choose_region memory gs =
     (let known = map fst (rvs_dict memory);
          known' = (if known = [] then [''central'', ''north'', ''south'', ''east'', ''west'']
                    else known)
      in best_region memory known')"

definition pick_loot :: "GameState \<Rightarrow> loot option" where
  "pick_loot gs =
     (if loot_nearby gs = [] then None
      else
        (case (if hp_pct gs < HP_USE_HEAL
               then find (\<lambda>item. let name = dict_get item ''item'' []
                                  in name \<in> set HEAL_PRIORITY
                                     \<and> map_get (inventory gs) name 0 < MAX_HEAL_PER_TYPE)
                      (loot_nearby gs)
               else None) of
           Some item \<Rightarrow> Some item
         | None \<Rightarrow>
             find (\<lambda>item. let name = dict_get item ''item'' []
                           in map_get (inventory gs) name 0 < MAX_HEAL_PER_TYPE)
               (loot_nearby gs)))"

text \<open>
  \<^verbatim>\<open>decide\<close> is split at its numbered blocks. \<open>decide_weapon\<close> is block 3 (weapon hunt):
  it gives the action the block returns, or \<open>None\<close> when control falls through.
\<close>

definition decide_weapon :: "GameState \<Rightarrow> py_error + action option" where
  "decide_weapon gs =
     (case best_nearby_weapon gs of
        None \<Rightarrow> Inr None
      | Some best_w \<Rightarrow>
          (case is_upgrade_over best_w (weapon gs) of
             Inl err \<Rightarrow> Inl err
           | Inr upgrade \<Rightarrow>
               if upgrade then
                 (if safe_path_prob gs \<ge> SAFE_PATH_MIN \<and> \<not> weapon_in_zone_trajectory gs
                  then Inr (Some (MoveToWeapon (w_name best_w)))
                  else Inr None)
               else Inr None))"

text \<open>
  \<open>decide_combat\<close> is block 5 (target acquisition and combat). It writes the target lock
  into the game state, so it returns the state with the action; \<open>None\<close> again means that
  control falls through.
\<close>

definition decide_combat :: "GameState \<Rightarrow> py_error + (action option \<times> GameState)" where
  "decide_combat gs =
     (case select_target gs of
        Inl err \<Rightarrow> Inl err
      | Inr None \<Rightarrow> Inr (None, gs)
      | Inr (Some target) \<Rightarrow>
          (let gs1 = gs\<lparr> locked_target := Some target, target_id := Some (e_id target) \<rparr>
           in if e_in_zone target then
                (let kill_t = kill_time gs1 target;
                     esc_p = self_escape_prob gs1
                 in if kill_t \<le> ZONE_CHASE_MAX_SEC \<and> esc_p \<ge> ZONE_ESCAPE_MIN
                    then Inr (Some (Attack (e_id target)), gs1)
                    else Inr (None, gs1\<lparr> locked_target := None, target_id := None \<rparr>))
              else
                (case win_prob gs1 target of
                   Inl err \<Rightarrow> Inl err
                 | Inr wp \<Rightarrow> Inr (Some (Attack (e_id target)), gs1))))"

text \<open>Blocks 7 and 8: pick up loot (an empty loot dictionary is false), else patrol.\<close>

definition decide_loot :: "GameState \<Rightarrow> action" where
  "decide_loot gs =
     (case pick_loot gs of
        None \<Rightarrow> Patrol
      | Some loot \<Rightarrow> if loot \<noteq> [] then PickLoot (map_of loot ''id'') else Patrol)"

text \<open>Block 6: explore the best region, unless it is none, empty or the current one.\<close>

definition decide_explore :: "RegionMemory \<Rightarrow> GameState \<Rightarrow> action" where
  "decide_explore memory gs =
     (case choose_region memory gs of
        None \<Rightarrow> decide_loot gs
      | Some region \<Rightarrow>
          if region \<noteq> [] \<and> region \<noteq> current_region gs then MoveToRegion region
          else decide_loot gs)"

text \<open>
  \<^verbatim>\<open>DecisionEngine.decide\<close>, with the engine's \<^verbatim>\<open>memory\<close> as first argument. The result is
  the returned action and the game state as the call leaves it, or the exception raised.
\<close>

definition decide :: "RegionMemory \<Rightarrow> GameState \<Rightarrow> py_error + (action \<times> GameState)" where
  "decide memory gs =
     (if zone_critical gs then Inr (zone_escape_action gs, gs)
      else if hp_pct gs < HP_DISENGAGE \<and> truthy (best_heal gs) then Inr (heal_action gs, gs)
      else
        (case decide_weapon gs of
           Inl err \<Rightarrow> Inl err
         | Inr (Some act) \<Rightarrow> Inr (act, gs)
         | Inr None \<Rightarrow>
             if hp_pct gs < HP_USE_HEAL \<and> truthy (best_heal gs) then Inr (heal_action gs, gs)
             else
               (case decide_combat gs of
                  Inl err \<Rightarrow> Inl err
                | Inr (Some act, gs') \<Rightarrow> Inr (act, gs')
                | Inr (None, gs') \<Rightarrow> Inr (decide_explore memory gs', gs'))))"

text \<open>Defaults of the data classes, for building concrete snapshots.\<close>

definition default_zone :: Zone where
  "default_zone =
     \<lparr> z_distance = 999.0, z_shrink_timer = 999.0, z_direction = [], z_is_safe = True,
       z_shrink_speed = 1.0 \<rparr>"

definition default_gs :: GameState where
  "default_gs =
     \<lparr> hp = 100.0, max_hp = 100.0, balance = 0.0, kills = 0, weapon = None,
       inventory = Map.empty, position = [], zone = default_zone, vision_modifier = 1.0,
       enemies = [], loot_nearby = [], weapons_nearby = [], current_region = [],
       players_alive = 0, match_id = [], tick = 0, state = IDLE, target_id = None,
       locked_target = None \<rparr>"

definition default_enemy :: "string \<Rightarrow> Enemy" where
  "default_enemy i =
     \<lparr> e_id = i, e_hp = 100.0, e_max_hp = 100.0, e_dps = 10.0, e_distance = 50.0,
       e_in_zone = False, e_position = [] \<rparr>"

definition default_weapon :: "string \<Rightarrow> Weapon" where
  "default_weapon n =
     \<lparr> w_name = n, w_dps = 0.0, w_accuracy = 1.0, w_range = 1.0, w_tier = ''common'' \<rparr>"

lemmas const_defs =
  WIN_PROB_ENGAGE_def WIN_PROB_DISENGAGE_def ESCAPE_PROB_MAX_def WEAPON_UPGRADE_PCT_def
  SAFE_PATH_MIN_def ZONE_CHASE_MAX_SEC_def ZONE_ESCAPE_MIN_def HP_USE_HEAL_def
  HP_DISENGAGE_def HP_ZONE_ABORT_def MAX_HEAL_PER_TYPE_def RVS_BASE_def RVS_FLOOR_def
  RVS_HIGH_WEAPON_def RVS_KILL_def RVS_FAIL_EXPLORE_def RVS_ZONE_PRONE_def RVS_AMBUSH_def

lemmas eval_defs =
  dict_get_def map_get_def lower_def lower_char_def TIER_MULT_def HEAL_PRIORITY_def
  default_zone_def default_gs_def default_enemy_def default_weapon_def score_def

section \<open>Weapons\<close>

text \<open>
  Claim C9. For every weapon \<open>W\<close>, \<open>W.is_upgrade_over(None)\<close> is true. For another weapon
  \<open>O\<close> with \<open>O.score \<le> 0\<close>, \<open>W.is_upgrade_over(O)\<close> is true exactly when \<open>W.score > 0\<close>, and
  no division is performed: the call returns and cannot raise. For \<open>O.score > 0\<close> it is
  true exactly when \<open>(W.score - O.score) / O.score \<ge> 0.15\<close>; this division is by a
  positive number, so the call returns here too.
\<close>

theorem is_upgrade_over_spec:
  "is_upgrade_over W None = Inr True
   \<and> (score O' \<le> 0 \<longrightarrow> is_upgrade_over W (Some O') = Inr (score W > 0))
   \<and> (score O' > 0 \<longrightarrow>
        is_upgrade_over W (Some O') = Inr ((score W - score O') / score O' \<ge> 0.15))"
  by (simp add: is_upgrade_over_def py_div_def WEAPON_UPGRADE_PCT_def)

text \<open>
  Witness: a weapon of score 23 against one of score 0 (first case) and against one of
  score 20 (second case: exactly 15 percent better, an upgrade).
\<close>

theorem is_upgrade_over_spec_witness:
  "score (default_weapon ''old'') \<le> 0
   \<and> is_upgrade_over (default_weapon ''new''\<lparr>w_dps := 23\<rparr>) (Some (default_weapon ''old''))
       = Inr True
   \<and> score (default_weapon ''old''\<lparr>w_dps := 20\<rparr>) > 0
   \<and> is_upgrade_over (default_weapon ''new''\<lparr>w_dps := 23\<rparr>)
         (Some (default_weapon ''old''\<lparr>w_dps := 20\<rparr>)) = Inr True"
proof -
  let ?W = "default_weapon ''new''\<lparr>w_dps := 23\<rparr>"
  let ?O0 = "default_weapon ''old''"
  let ?O20 = "default_weapon ''old''\<lparr>w_dps := 20\<rparr>"
  have sW: "score ?W = 23" and s0: "score ?O0 = 0" and s20: "score ?O20 = 20"
    by (simp_all add: eval_defs)
  have "is_upgrade_over ?W (Some ?O0) = Inr (score ?W > 0)"
    using is_upgrade_over_spec [of ?W ?O0] s0 by simp
  moreover have "is_upgrade_over ?W (Some ?O20) = Inr ((score ?W - score ?O20) / score ?O20 \<ge> 0.15)"
    using is_upgrade_over_spec [of ?W ?O20] s20 by simp
  ultimately show ?thesis
    by (simp add: sW s0 s20)
qed

section \<open>Win probability\<close>

text \<open>
  Claim C7, as stated: for an enemy with distance 80, hp 40 and dps 10 and an agent with
  weapon dps 20, hp 100 and vision modifier 1.0, the win probability lies in
  \<open>[0.55, 0.75]\<close>. It does not: on the snapshot below the code computes
  \<open>raw = 2000 / 640 = 3.125\<close> and \<open>3.125 / 4.125 = 25/33\<close>, about 0.7576.
\<close>

theorem win_prob_pin_counterexample:
  "win_prob (default_gs\<lparr> weapon := Some (default_weapon ''rifle''\<lparr>w_dps := 20\<rparr>) \<rparr>)
     (default_enemy ''e1''\<lparr> e_distance := 80, e_hp := 40 \<rparr>)
   \<notin> Inr ` {0.55 .. 0.75}"
  by (simp add: win_prob_def py_div_def position_advantage_def eval_defs image_iff)

text \<open>
  Claim C7, amended: for these inputs the win probability is exactly \<open>25/33\<close>, which lies
  in \<open>[0.55, 0.76]\<close> and is greater than 0.75. The enemy's \<open>max_hp\<close> and \<open>in_zone\<close> and the
  weapon's other fields play no part in the formula.
\<close>

theorem win_prob_pin:
  assumes "e_distance E = 80" and "e_hp E = 40" and "e_dps E = 10"
    and "weapon gs = Some w" and "w_dps w = 20" and "hp gs = 100"
    and "vision_modifier gs = 1.0"
  shows "win_prob gs E = Inr (25 / 33)
         \<and> win_prob gs E \<in> Inr ` {0.55 .. 0.76}
         \<and> win_prob gs E \<notin> Inr ` {0.55 .. 0.75}"
proof -
  have "win_prob gs E = Inr (25 / 33)"
    using assms by (simp add: win_prob_def py_div_def position_advantage_def)
  then show ?thesis
    by (simp add: inj_image_mem_iff)
qed

theorem win_prob_pin_witness:
  "win_prob (default_gs\<lparr> weapon := Some (default_weapon ''rifle''\<lparr>w_dps := 20\<rparr>) \<rparr>)
     (default_enemy ''e1''\<lparr> e_distance := 80, e_hp := 40 \<rparr>) = Inr (25 / 33)"
proof -
  let ?w = "default_weapon ''rifle''\<lparr>w_dps := 20\<rparr>"
  let ?gs = "default_gs\<lparr> weapon := Some ?w \<rparr>"
  let ?E = "default_enemy ''e1''\<lparr> e_distance := 80, e_hp := 40 \<rparr>"
  have "win_prob ?gs ?E = Inr (25 / 33)
        \<and> win_prob ?gs ?E \<in> Inr ` {0.55 .. 0.76}
        \<and> win_prob ?gs ?E \<notin> Inr ` {0.55 .. 0.75}"
    by (rule win_prob_pin [of ?E ?gs ?w]) (simp_all add: eval_defs)
  then show ?thesis by simp
qed

section \<open>Zone escape\<close>

lemma zone_critical_iff:
  "zone_critical gs \<longleftrightarrow>
     \<not> z_is_safe (zone gs)
     \<or> (z_distance (zone gs) < 50 \<and> z_shrink_timer (zone gs) < 10)
     \<or> (hp_pct gs < 60 \<and> z_distance (zone gs) < 80)"
  by (simp add: zone_critical_def HP_ZONE_ABORT_def)

text \<open>
  Claim C1. On every snapshot in which the agent is not marked safe, or the distance to
  safety is below 50 with the shrink timer below 10, or the health percentage is below 60
  with the distance below 80, \<open>decide\<close> returns an \<open>escape_zone\<close> action (towards the
  zone's direction, or \<open>safe_zone_center\<close> when none is given, with priority \<open>sprint\<close>) and
  leaves the snapshot as it was, whatever the other fields hold: the zone rule is tested
  before every other rule.
\<close>

theorem zone_escape_dominates:
  assumes "\<not> z_is_safe (zone gs)
     \<or> (z_distance (zone gs) < 50 \<and> z_shrink_timer (zone gs) < 10)
     \<or> (hp_pct gs < 60 \<and> z_distance (zone gs) < 80)"
  shows "\<exists>use_heal. decide memory gs =
           Inr (EscapeZone (if z_direction (zone gs) \<noteq> [] then z_direction (zone gs)
                            else ''safe_zone_center'') ''sprint'' use_heal, gs)"
proof -
  from assms have "zone_critical gs"
    by (simp only: zone_critical_iff)
  then have "decide memory gs = Inr (zone_escape_action gs, gs)"
    by (simp add: decide_def)
  then show ?thesis
    by (simp add: zone_escape_action_def Let_def)
qed

text \<open>
  Witnesses: an unsafe agent with a heal item and a weak enemy in sight, and the scenario
  of a zone closing in at health 20 percent with a medkit, where the heal is bundled into
  the escape.
\<close>

theorem zone_escape_dominates_witness:
  "decide init_memory
     (default_gs\<lparr> zone := default_zone\<lparr> z_is_safe := False \<rparr>,
                  inventory := [''medkit'' \<mapsto> 1],
                  enemies := [default_enemy ''e1''\<lparr> e_hp := 20 \<rparr>] \<rparr>)
   = Inr (EscapeZone ''safe_zone_center'' ''sprint'' None,
          default_gs\<lparr> zone := default_zone\<lparr> z_is_safe := False \<rparr>,
                  inventory := [''medkit'' \<mapsto> 1],
                  enemies := [default_enemy ''e1''\<lparr> e_hp := 20 \<rparr>] \<rparr>)
   \<and> decide init_memory
     (default_gs\<lparr> hp := 20, zone := default_zone\<lparr> z_distance := 30, z_shrink_timer := 5 \<rparr>,
                  inventory := [''medkit'' \<mapsto> 1] \<rparr>)
   = Inr (EscapeZone ''safe_zone_center'' ''sprint'' (Some ''medkit''),
          default_gs\<lparr> hp := 20, zone := default_zone\<lparr> z_distance := 30, z_shrink_timer := 5 \<rparr>,
                  inventory := [''medkit'' \<mapsto> 1] \<rparr>)"
proof -
  let ?g1 = "default_gs\<lparr> zone := default_zone\<lparr> z_is_safe := False \<rparr>,
                  inventory := [''medkit'' \<mapsto> 1],
                  enemies := [default_enemy ''e1''\<lparr> e_hp := 20 \<rparr>] \<rparr>"
  let ?g2 = "default_gs\<lparr> hp := 20, zone := default_zone\<lparr> z_distance := 30, z_shrink_timer := 5 \<rparr>,
                  inventory := [''medkit'' \<mapsto> 1] \<rparr>"
  have h1: "\<not> z_is_safe (zone ?g1)" 
    by (simp add: eval_defs)
  have h2: "z_distance (zone ?g2) < 50 \<and> z_shrink_timer (zone ?g2) < 10"
    by (simp add: eval_defs)
  obtain u1 where d1: "decide init_memory ?g1 =
      Inr (EscapeZone (if z_direction (zone ?g1) \<noteq> [] then z_direction (zone ?g1)
                            else ''safe_zone_center'') ''sprint'' u1, ?g1)"
    using zone_escape_dominates [of ?g1 init_memory] h1 by blast
  obtain u2 where d2: "decide init_memory ?g2 =
      Inr (EscapeZone (if z_direction (zone ?g2) \<noteq> [] then z_direction (zone ?g2)
                            else ''safe_zone_center'') ''sprint'' u2, ?g2)"
    using zone_escape_dominates [of ?g2 init_memory] h2 by blast
  have z1: "zone_critical ?g1" and z2: "zone_critical ?g2"
    by (simp_all add: zone_critical_def eval_defs)
  have "u1 = None"
    using d1 z1 by (simp add: decide_def zone_escape_action_def hp_pct_def eval_defs)
  moreover have "u2 = Some ''medkit''"
    using d2 z2 by (simp add: decide_def zone_escape_action_def hp_pct_def best_heal_def truthy_def eval_defs)
  ultimately show ?thesis
    using d1 d2 by (simp add: eval_defs)
qed

section \<open>Region scores stay in range\<close>

lemma set_update_cases:
  "p \<in> set (AList.update k v al) \<Longrightarrow> p = (k, v) \<or> p \<in> set al"
  by (induction al) (auto split: if_splits)

lemma adjust_stored_range:
  assumes "\<forall>v \<in> snd ` set (rvs_dict m). 0 \<le> v \<and> v \<le> 2"
  shows "\<forall>v \<in> snd ` set (rvs_dict (adjust m r d)). 0 \<le> v \<and> v \<le> 2"
proof
  fix v assume "v \<in> snd ` set (rvs_dict (adjust m r d))"
  then obtain k where "(k, v) \<in> set (AList.update r (max 0 (min 2 (rvs m r + d))) (rvs_dict m))"
    by (auto simp: adjust_def Let_def)
  then have "v = max 0 (min 2 (rvs m r + d)) \<or> (k, v) \<in> set (rvs_dict m)"
    by (auto dest: set_update_cases)
  then show "0 \<le> v \<and> v \<le> 2"
    using assms by (auto simp: image_iff)
qed

lemma record_explore_stored_range:
  assumes "\<forall>v \<in> snd ` set (rvs_dict m). 0 \<le> v \<and> v \<le> 2"
  shows "\<forall>v \<in> snd ` set (rvs_dict (record_explore m r n)). 0 \<le> v \<and> v \<le> 2"
proof -
  let ?m2 = "m\<lparr> explores := (explores m)(r \<mapsto> map_get (explores m) r 0 + 1),
                 loot_found := (loot_found m)(r \<mapsto> map_get (loot_found m) r 0 + n) \<rparr>"
  have "rvs_dict ?m2 = rvs_dict m" by simp
  with assms have inv2: "\<forall>v \<in> snd ` set (rvs_dict ?m2). 0 \<le> v \<and> v \<le> 2" by simp
  have "record_explore m r n = ?m2 \<or> record_explore m r n = adjust ?m2 r RVS_FAIL_EXPLORE"
    by (simp add: record_explore_def Let_def)
  then show ?thesis
    using inv2 adjust_stored_range [OF inv2] by metis
qed

lemma record_event_stored_range:
  assumes "\<forall>v \<in> snd ` set (rvs_dict m). 0 \<le> v \<and> v \<le> 2"
  shows "\<forall>v \<in> snd ` set (rvs_dict (record_event m r ev)). 0 \<le> v \<and> v \<le> 2"
proof (cases "dict_get delta_map ev 0 \<noteq> 0")
  case True
  then have "record_event m r ev = adjust m r (dict_get delta_map ev 0)"
    by (simp add: record_event_def)
  then show ?thesis
    using adjust_stored_range [OF assms] by (simp only:)
next
  case False
  then have "record_event m r ev = m"
    by (simp add: record_event_def)
  then show ?thesis
    using assms by (simp only:)
qed

lemma run_call_stored_range:
  assumes "\<forall>v \<in> snd ` set (rvs_dict m). 0 \<le> v \<and> v \<le> 2"
  shows "\<forall>v \<in> snd ` set (rvs_dict (run_call m c)). 0 \<le> v \<and> v \<le> 2"
proof (cases c)
  case (RecordExplore r n)
  then show ?thesis
    using record_explore_stored_range [OF assms] by (simp only: run_call.simps)
next
  case (RecordEvent r ev)
  then show ?thesis
    using record_event_stored_range [OF assms] by (simp only: run_call.simps)
qed

lemma run_calls_stored_range:
  assumes "\<forall>v \<in> snd ` set (rvs_dict m). 0 \<le> v \<and> v \<le> 2"
  shows "\<forall>v \<in> snd ` set (rvs_dict (run_calls m calls)). 0 \<le> v \<and> v \<le> 2"
  using assms unfolding run_calls_def
proof (induction calls arbitrary: m)
  case Nil
  then show ?case by (simp only: foldl_Nil)
next
  case (Cons c calls)
  have "\<forall>v \<in> snd ` set (rvs_dict (run_call m c)). 0 \<le> v \<and> v \<le> 2"
    using Cons.prems by (rule run_call_stored_range)
  then have "\<forall>v \<in> snd ` set (rvs_dict (foldl run_call (run_call m c) calls)). 0 \<le> v \<and> v \<le> 2"
    by (rule Cons.IH)
  then show ?case
    by (simp only: foldl_Cons)
qed

lemma rvs_range_of_stored:
  assumes "\<forall>v \<in> snd ` set (rvs_dict m). 0 \<le> v \<and> v \<le> 2"
  shows "0 \<le> rvs m r \<and> rvs m r \<le> 2"
proof (cases "map_of (rvs_dict m) r")
  case None
  then show ?thesis by (simp add: rvs_def dict_get_def RVS_BASE_def)
next
  case (Some v)
  then have "(r, v) \<in> set (rvs_dict m)" by (rule map_of_SomeD)
  then have "v \<in> snd ` set (rvs_dict m)" by force
  with assms Some show ?thesis by (auto simp: rvs_def dict_get_def)
qed

lemma rvs_unseen:
  assumes "r \<notin> fst ` set (rvs_dict m)"
  shows "rvs m r = 1"
proof -
  from assms have "map_of (rvs_dict m) r = None"
    by (simp add: map_of_eq_None_iff)
  then show ?thesis
    by (simp add: rvs_def dict_get_def RVS_BASE_def)
qed

text \<open>
  Claim C4. Starting from a fresh \<open>RegionMemory\<close>, after every finite sequence of
  \<open>record_explore\<close> and \<open>record_event\<close> calls with arbitrary arguments, every stored
  region score lies in \<open>[0, 2]\<close>; the score read for any region lies in \<open>[0, 2]\<close>, and for a
  region without a stored score it is the base value 1.
\<close>

theorem rvs_always_in_range:
  "(\<forall>v \<in> snd ` set (rvs_dict (run_calls init_memory calls)). 0 \<le> v \<and> v \<le> 2)
   \<and> 0 \<le> rvs (run_calls init_memory calls) region
   \<and> rvs (run_calls init_memory calls) region \<le> 2
   \<and> (region \<notin> fst ` set (rvs_dict (run_calls init_memory calls))
        \<longrightarrow> rvs (run_calls init_memory calls) region = 1)"
proof -
  have "\<forall>v \<in> snd ` set (rvs_dict init_memory). 0 \<le> v \<and> v \<le> 2"
    by (simp add: init_memory_def)
  then have stored: "\<forall>v \<in> snd ` set (rvs_dict (run_calls init_memory calls)). 0 \<le> v \<and> v \<le> 2"
    by (rule run_calls_stored_range)
  have range: "0 \<le> rvs (run_calls init_memory calls) region
      \<and> rvs (run_calls init_memory calls) region \<le> 2"
    by (rule rvs_range_of_stored [OF stored])
  have "region \<notin> fst ` set (rvs_dict (run_calls init_memory calls))
        \<longrightarrow> rvs (run_calls init_memory calls) region = 1"
    by (simp add: rvs_unseen)
  with stored range show ?thesis
    by simp
qed

text \<open>
  Witness: five rewards on one region saturate its score at 2, and a region never
  recorded still reads 1.
\<close>

theorem rvs_always_in_range_witness:
  "rvs_dict (run_calls init_memory
      [RecordEvent ''north'' ''kill'', RecordEvent ''north'' ''high_tier_weapon'',
       RecordEvent ''north'' ''high_tier_weapon'', RecordEvent ''north'' ''high_tier_weapon'',
       RecordEvent ''north'' ''kill'']) = [(''north'', 2)]
   \<and> rvs (run_calls init_memory
      [RecordEvent ''north'' ''kill'', RecordEvent ''north'' ''high_tier_weapon'',
       RecordEvent ''north'' ''high_tier_weapon'', RecordEvent ''north'' ''high_tier_weapon'',
       RecordEvent ''north'' ''kill'']) ''south'' = 1"
proof -
  let ?cs = "[RecordEvent ''north'' ''kill'', RecordEvent ''north'' ''high_tier_weapon'',
       RecordEvent ''north'' ''high_tier_weapon'', RecordEvent ''north'' ''high_tier_weapon'',
       RecordEvent ''north'' ''kill'']"
  have ev: "rvs_dict (run_calls init_memory ?cs) = [(''north'', 2)]"
    by (simp add: run_calls_def record_event_def adjust_def rvs_def delta_map_def init_memory_def
        dict_get_def const_defs)
  then have "''south'' \<notin> fst ` set (rvs_dict (run_calls init_memory ?cs))"
    by simp
  then have "rvs (run_calls init_memory ?cs) ''south'' = 1"
    using rvs_always_in_range [of ?cs "''south''"] by blast
  with ev show ?thesis by simp
qed

section \<open>The failed-explore penalty\<close>

lemma rvs_adjust_same: "rvs (adjust m r d) r = max 0 (min 2 (rvs m r + d))"
  by (simp add: adjust_def rvs_def dict_get_def Let_def update_conv')

lemma rvs_adjust_other: "r' \<noteq> r \<Longrightarrow> rvs (adjust m r d) r' = rvs m r'"
  by (simp add: adjust_def rvs_def dict_get_def Let_def update_conv')

lemma counters_adjust:
  "explores (adjust m r d) = explores m" "loot_found (adjust m r d) = loot_found m"
  by (simp_all add: adjust_def Let_def)

text \<open>
  Claim C2, as stated: once two explores without loot have applied the penalty, further
  explores without loot do not apply it again. They do: the test of \<open>record_explore\<close> is
  \<open>count \<ge> 2\<close> with no record of a penalty already applied. From a fresh memory the
  score of a region is 0.7 after two empty explores and 0.4 after the third.
\<close>

theorem record_explore_repeats_counterexample:
  "rvs (run_calls init_memory [RecordExplore ''r'' 0, RecordExplore ''r'' 0]) ''r'' = 7 / 10
   \<and> rvs (run_calls init_memory
            [RecordExplore ''r'' 0, RecordExplore ''r'' 0, RecordExplore ''r'' 0]) ''r'' = 4 / 10"
  by (simp add: run_calls_def record_explore_def adjust_def rvs_def init_memory_def
      dict_get_def map_get_def const_defs)

lemma record_explore_unfold:
  "record_explore m r n =
     (let m2 = m\<lparr> explores := (explores m)(r \<mapsto> map_get (explores m) r 0 + 1),
                   loot_found := (loot_found m)(r \<mapsto> map_get (loot_found m) r 0 + n) \<rparr>
      in if map_get (explores m) r 0 + 1 \<ge> 2 \<and> map_get (loot_found m) r 0 + n = 0
         then adjust m2 r RVS_FAIL_EXPLORE else m2)"
  by (simp add: record_explore_def Let_def map_get_def)

lemma record_explore_counters:
  "map_get (explores (record_explore m r n)) r 0 = map_get (explores m) r 0 + 1"
  "map_get (loot_found (record_explore m r n)) r 0 = map_get (loot_found m) r 0 + n"
  by (simp_all add: record_explore_unfold Let_def counters_adjust map_get_def)

lemma record_explore_rvs_same:
  "rvs (record_explore m r n) r =
     (if map_get (explores m) r 0 + 1 \<ge> 2 \<and> map_get (loot_found m) r 0 + n = 0
      then max 0 (min 2 (rvs m r - 0.3)) else rvs m r)"
  by (simp add: record_explore_unfold Let_def rvs_adjust_same RVS_FAIL_EXPLORE_def)
     (simp add: rvs_def)

lemma record_explore_rvs_other:
  "r' \<noteq> r \<Longrightarrow> rvs (record_explore m r n) r' = rvs m r'"
  by (simp add: record_explore_unfold Let_def rvs_adjust_other) (simp add: rvs_def)

text \<open>
  Claim C2, amended. A call \<open>record_explore(region, n)\<close> adds 1 to the region's explore
  count and \<open>n\<close> to its cumulative loot, and applies the penalty of 0.3 (clamped into
  \<open>[0, 2]\<close>) exactly when the new count is at least 2 and the new cumulative loot is 0:
  on every such call, not only the first. Other regions keep their score. In particular,
  for a region with no explore and no loot recorded so far, the first of two consecutive
  \<open>record_explore(region, 0)\<close> calls leaves the score as it is and the second applies the
  penalty: exactly once for the pair.
\<close>

theorem record_explore_penalty:
  "map_get (explores (record_explore m r n)) r 0 = map_get (explores m) r 0 + 1
   \<and> map_get (loot_found (record_explore m r n)) r 0 = map_get (loot_found m) r 0 + n
   \<and> rvs (record_explore m r n) r =
       (if map_get (explores m) r 0 + 1 \<ge> 2 \<and> map_get (loot_found m) r 0 + n = 0
        then max 0 (min 2 (rvs m r - 0.3)) else rvs m r)
   \<and> (r' \<noteq> r \<longrightarrow> rvs (record_explore m r n) r' = rvs m r')
   \<and> (map_get (explores m) r 0 = 0 \<and> map_get (loot_found m) r 0 = 0 \<longrightarrow>
        rvs (record_explore m r 0) r = rvs m r
        \<and> rvs (record_explore (record_explore m r 0) r 0) r = max 0 (min 2 (rvs m r - 0.3)))"
proof -
  have "rvs (record_explore m r 0) r = rvs m r
        \<and> rvs (record_explore (record_explore m r 0) r 0) r = max 0 (min 2 (rvs m r - 0.3))"
    if "map_get (explores m) r 0 = 0" and "map_get (loot_found m) r 0 = 0"
  proof -
    have one: "rvs (record_explore m r 0) r = rvs m r"
      using that by (simp add: record_explore_rvs_same)
    have "rvs (record_explore (record_explore m r 0) r 0) r
          = max 0 (min 2 (rvs (record_explore m r 0) r - 0.3))"
      using that by (simp add: record_explore_rvs_same [of "record_explore m r 0"] record_explore_counters)
    with one show ?thesis by simp
  qed
  then show ?thesis
    using record_explore_counters [of m r n] record_explore_rvs_same [of m r n]
      record_explore_rvs_other [of r' r m n]
    by simp
qed

text \<open>Witness: two empty explores of a region on a fresh memory.\<close>

theorem record_explore_penalty_witness:
  "rvs (record_explore init_memory ''r'' 0) ''r'' = 1
   \<and> rvs (record_explore (record_explore init_memory ''r'' 0) ''r'' 0) ''r'' = 7 / 10
   \<and> rvs (record_explore (record_explore init_memory ''r'' 0) ''r'' 0) ''q'' = 1"
proof -
  have fresh: "map_get (explores init_memory) ''r'' 0 = 0 \<and> map_get (loot_found init_memory) ''r'' 0 = 0"
    by (simp add: init_memory_def map_get_def)
  have base: "rvs init_memory ''r'' = 1" "rvs init_memory ''q'' = 1"
    by (simp_all add: init_memory_def rvs_def dict_get_def RVS_BASE_def)
  have "rvs (record_explore init_memory ''r'' 0) ''r'' = rvs init_memory ''r''
        \<and> rvs (record_explore (record_explore init_memory ''r'' 0) ''r'' 0) ''r''
          = max 0 (min 2 (rvs init_memory ''r'' - 0.3))"
    using record_explore_penalty [of init_memory "''r''" 0 "''q''"] fresh by blast
  moreover have "rvs (record_explore (record_explore init_memory ''r'' 0) ''r'' 0) ''q''
      = rvs (record_explore init_memory ''r'' 0) ''q''"
    using record_explore_penalty [of "record_explore init_memory ''r'' 0" "''r''" 0 "''q''"] by simp
  moreover have "rvs (record_explore init_memory ''r'' 0) ''q'' = rvs init_memory ''q''"
    using record_explore_penalty [of init_memory "''r''" 0 "''q''"] by simp
  ultimately show ?thesis
    by (simp add: base)
qed

section \<open>Maximum by key\<close>

text \<open>
  The maximum by key is the first maximal item: the list splits around it into items with
  a strictly smaller key before it and items with a key not greater after it.
\<close>

lemma max_from_decomp:
  "\<exists>pre post. b # xs = pre @ max_from key b xs # post
     \<and> (\<forall>x \<in> set pre. key x < key (max_from key b xs))
     \<and> (\<forall>x \<in> set post. key x \<le> key (max_from key b xs))"
proof (induction xs arbitrary: b)
  case Nil
  have "[b] = [] @ b # [] \<and> (\<forall>x \<in> set []. key x < key b) \<and> (\<forall>x \<in> set []. key x \<le> key b)"
    by simp
  then show ?case
    unfolding max_from.simps by blast
next
  case (Cons x xs)
  define b' where "b' = (if key x > key b then x else b)"
  define m where "m = max_from key b' xs"
  have m_eq: "max_from key b (x # xs) = m"
    by (simp add: m_def b'_def)
  from Cons.IH [of b'] obtain pre post where
    dec: "b' # xs = pre @ m # post"
    and lt: "\<forall>y \<in> set pre. key y < key m"
    and le: "\<forall>y \<in> set post. key y \<le> key m"
    unfolding m_def by blast
  have "b' \<in> set (pre @ m # post)"
    using dec by (metis list.set_intros(1))
  then have b_le: "key b' \<le> key m"
    using lt le by auto
  have "\<exists>pre2 post2. b # x # xs = pre2 @ m # post2
     \<and> (\<forall>y \<in> set pre2. key y < key m) \<and> (\<forall>y \<in> set post2. key y \<le> key m)"
  proof (cases "key x > key b")
    case True
    then have bx: "b' = x" by (simp add: b'_def)
    have "b # x # xs = (b # pre) @ m # post"
      using dec bx by simp
    moreover have "\<forall>y \<in> set (b # pre). key y < key m"
      using True b_le lt bx by auto
    ultimately show ?thesis
      using le by blast
  next
    case False
    then have bb: "b' = b" by (simp add: b'_def)
    show ?thesis
    proof (cases pre)
      case Nil
      then have mb: "m = b" and px: "post = xs"
        using dec bb by simp_all
      have "b # x # xs = [] @ m # (x # xs)"
        using mb by simp
      moreover have "\<forall>y \<in> set (x # xs). key y \<le> key m"
        using False le mb px by auto
      moreover have "\<forall>y \<in> set ([]::'a list). key y < key m"
        by simp
      ultimately show ?thesis
        by blast
    next
      case (Cons p pre')
      then have pb: "p = b" and xs: "xs = pre' @ m # post"
        using dec bb by simp_all
      have "b # x # xs = (b # x # pre') @ m # post"
        using xs by simp
      moreover have "key b < key m"
        using lt Cons pb by simp
      then have "\<forall>y \<in> set (b # x # pre'). key y < key m"
        using False lt Cons by auto
      ultimately show ?thesis
        using le by blast
    qed
  qed
  then show ?case
    by (simp only: m_eq)
qed

lemma filter_eq_appendD:
  "filter P ys = us @ x # vs \<Longrightarrow>
     \<exists>pre post. ys = pre @ x # post \<and> filter P pre = us \<and> filter P post = vs \<and> P x"
proof (induction ys arbitrary: us)
  case Nil
  then show ?case by simp
next
  case (Cons y ys)
  show ?case
  proof (cases "P y")
    case False
    then have "filter P ys = us @ x # vs" using Cons.prems by simp
    from Cons.IH [OF this] obtain pre post where
      "ys = pre @ x # post" "filter P pre = us" "filter P post = vs" "P x" by blast
    then have "y # ys = (y # pre) @ x # post \<and> filter P (y # pre) = us \<and> filter P post = vs \<and> P x"
      using False by simp
    then show ?thesis by blast
  next
    case True
    show ?thesis
    proof (cases us)
      case Nil
      then have "y # ys = [] @ x # ys \<and> filter P [] = us \<and> filter P ys = vs \<and> P x"
        using Cons.prems True by simp
      then show ?thesis by blast
    next
      case (Cons u us')
      then have "filter P ys = us' @ x # vs" and "u = y" using Cons.prems True by simp_all
      from Cons.IH [OF this(1)] obtain pre post where
        "ys = pre @ x # post" "filter P pre = us'" "filter P post = vs" "P x" by blast
      then have "y # ys = (y # pre) @ x # post \<and> filter P (y # pre) = us \<and> filter P post = vs \<and> P x"
        using True Cons \<open>u = y\<close> by simp
      then show ?thesis by blast
    qed
  qed
qed

section \<open>Best region\<close>

text \<open>
  Claim C6. For every non-empty candidate list, \<open>best_region\<close> returns a candidate, never
  none. If some candidate has score at least 0.5, the result has score at least 0.5, every
  such candidate before it in the list has a strictly smaller score and every such
  candidate after it has a score not greater: it is the first maximum of the worthwhile
  candidates. Otherwise the same holds among all candidates: it is the first maximum of
  the whole list.
\<close>

theorem best_region_spec:
  assumes "candidates \<noteq> []"
  shows "\<exists>r pre post. best_region m candidates = Some r \<and> candidates = pre @ r # post
     \<and> (if \<exists>c \<in> set candidates. rvs m c \<ge> 0.5
        then rvs m r \<ge> 0.5
             \<and> (\<forall>x \<in> set pre. rvs m x \<ge> 0.5 \<longrightarrow> rvs m x < rvs m r)
             \<and> (\<forall>x \<in> set post. rvs m x \<ge> 0.5 \<longrightarrow> rvs m x \<le> rvs m r)
        else (\<forall>x \<in> set pre. rvs m x < rvs m r) \<and> (\<forall>x \<in> set post. rvs m x \<le> rvs m r))"
proof -
  define P where "P = is_worthwhile m"
  have P_iff: "P x \<longleftrightarrow> rvs m x \<ge> 0.5" for x
    by (simp add: P_def is_worthwhile_def RVS_FLOOR_def)
  define worth where "worth = filter P candidates"
  show ?thesis
  proof (cases worth)
    case Nil
    then have none: "\<not> (\<exists>c \<in> set candidates. rvs m c \<ge> 0.5)"
      unfolding worth_def by (simp add: filter_empty_conv P_iff)
    from assms obtain c cs where cs: "candidates = c # cs"
      by (cases candidates) simp_all
    have res: "best_region m candidates = Some (max_from (rvs m) c cs)"
      using Nil cs by (simp add: best_region_def worth_def P_def)
    from max_from_decomp [of c cs "rvs m"] obtain pre post where
      "c # cs = pre @ max_from (rvs m) c cs # post"
      "\<forall>x \<in> set pre. rvs m x < rvs m (max_from (rvs m) c cs)"
      "\<forall>x \<in> set post. rvs m x \<le> rvs m (max_from (rvs m) c cs)"
      by blast
    with res cs none show ?thesis
      by (simp only: if_False) blast
  next
    case (Cons w ws)
    then have "w \<in> set (filter P candidates)"
      unfolding worth_def by simp
    then have some: "\<exists>c \<in> set candidates. rvs m c \<ge> 0.5"
      using P_iff by auto
    define r where "r = max_from (rvs m) w ws"
    have res: "best_region m candidates = Some r"
      using Cons by (simp add: best_region_def worth_def P_def r_def)
    from max_from_decomp [of w ws "rvs m"] obtain pre' post' where
      dec: "w # ws = pre' @ r # post'"
      and lt: "\<forall>x \<in> set pre'. rvs m x < rvs m r"
      and le: "\<forall>x \<in> set post'. rvs m x \<le> rvs m r"
      unfolding r_def by blast
    have "filter P candidates = pre' @ r # post'"
      using dec Cons worth_def by simp
    from filter_eq_appendD [OF this] obtain pre post where
      cs: "candidates = pre @ r # post" and fpre: "filter P pre = pre'"
      and fpost: "filter P post = post'" and Pr: "P r"
      by blast
    have "\<forall>x \<in> set pre. rvs m x \<ge> 0.5 \<longrightarrow> rvs m x < rvs m r"
      using lt fpre P_iff by auto
    moreover have "\<forall>x \<in> set post. rvs m x \<ge> 0.5 \<longrightarrow> rvs m x \<le> rvs m r"
      using le fpost P_iff by auto
    moreover have "rvs m r \<ge> 0.5"
      using Pr P_iff by simp
    ultimately show ?thesis
      using res cs some by (simp only: if_True) blast
  qed
qed

text \<open>
  Witnesses: a tie between two worthwhile regions, and a tie between two regions when
  every candidate is below the floor; the earlier one wins both times.
\<close>

theorem best_region_spec_witness:
  "[''a'', ''b'', ''c''] \<noteq> []
   \<and> best_region \<lparr> rvs_dict = [(''a'', 0.4), (''b'', 1.5), (''c'', 1.5)],
                    explores = Map.empty, loot_found = Map.empty \<rparr> [''a'', ''b'', ''c'']
       = Some ''b''
   \<and> best_region \<lparr> rvs_dict = [(''a'', 0.2), (''b'', 0.4), (''c'', 0.4)],
                    explores = Map.empty, loot_found = Map.empty \<rparr> [''a'', ''b'', ''c'']
       = Some ''b''"
proof -
  let ?m1 = "\<lparr> rvs_dict = [(''a'', 0.4), (''b'', 1.5), (''c'', 1.5)],
                    explores = Map.empty, loot_found = Map.empty \<rparr>"
  let ?m2 = "\<lparr> rvs_dict = [(''a'', 0.2), (''b'', 0.4), (''c'', 0.4)],
                    explores = Map.empty, loot_found = Map.empty \<rparr>"
  have ne: "[''a'', ''b'', ''c''] \<noteq> []" by simp
  have "\<exists>r. best_region ?m1 [''a'', ''b'', ''c''] = Some r"
    using best_region_spec [OF ne, of ?m1] by blast
  moreover have "\<exists>r. best_region ?m2 [''a'', ''b'', ''c''] = Some r"
    using best_region_spec [OF ne, of ?m2] by blast
  ultimately show ?thesis
    by (simp add: best_region_def is_worthwhile_def rvs_def dict_get_def RVS_BASE_def RVS_FLOOR_def)
qed

section \<open>Weapon hunt\<close>

text \<open>Which actions the blocks of \<open>decide\<close> can produce.\<close>

lemma is_upgrade_over_returns: "\<exists>b. is_upgrade_over W other = Inr b"
  by (cases other) (auto simp: is_upgrade_over_def py_div_def)

lemma decide_weapon_cases:
  "decide_weapon gs = Inr None \<or> (\<exists>n. decide_weapon gs = Inr (Some (MoveToWeapon n)))"
proof (cases "best_nearby_weapon gs")
  case None
  then show ?thesis by (simp add: decide_weapon_def)
next
  case (Some bw)
  obtain b where "is_upgrade_over bw (weapon gs) = Inr b"
    using is_upgrade_over_returns by blast
  with Some show ?thesis by (simp add: decide_weapon_def)
qed

lemma decide_combat_action:
  "decide_combat gs = Inr (Some act, gs') \<Longrightarrow> \<exists>t. act = Attack t"
  by (auto simp: decide_combat_def Let_def split: sum.splits option.splits if_splits)

lemma decide_loot_action: "decide_loot gs \<noteq> MoveToWeapon n"
  by (simp add: decide_loot_def split: option.splits)

lemma decide_explore_action: "decide_explore memory gs \<noteq> MoveToWeapon n"
  by (simp add: decide_explore_def decide_loot_action split: option.splits)

lemma heal_action_action: "heal_action gs \<noteq> MoveToWeapon n"
  by (simp add: heal_action_def)

lemma decide_past_critical_heal:
  assumes "\<not> zone_critical gs" and "\<not> (hp_pct gs < 35 \<and> truthy (best_heal gs))"
  shows "decide memory gs =
     (case decide_weapon gs of
        Inl err \<Rightarrow> Inl err
      | Inr (Some act) \<Rightarrow> Inr (act, gs)
      | Inr None \<Rightarrow>
          if hp_pct gs < HP_USE_HEAL \<and> truthy (best_heal gs) then Inr (heal_action gs, gs)
          else
            (case decide_combat gs of
               Inl err \<Rightarrow> Inl err
             | Inr (Some act, gs') \<Rightarrow> Inr (act, gs')
             | Inr (None, gs') \<Rightarrow> Inr (decide_explore memory gs', gs')))"
proof -
  have "\<not> (hp_pct gs < HP_DISENGAGE \<and> truthy (best_heal gs))"
    using assms(2) by (simp add: HP_DISENGAGE_def)
  then show ?thesis
    unfolding decide_def using assms(1) by (simp only: if_False)
qed

lemma decide_after_weapon:
  assumes "\<not> zone_critical gs" and "\<not> (hp_pct gs < 35 \<and> truthy (best_heal gs))"
    and "decide_weapon gs = Inr None" and "decide memory gs = Inr (act, gs')"
  shows "act \<noteq> MoveToWeapon n"
proof (cases "hp_pct gs < HP_USE_HEAL \<and> truthy (best_heal gs)")
  case True
  then have "decide memory gs = Inr (heal_action gs, gs)"
    using assms(3) by (simp add: decide_past_critical_heal [OF assms(1,2)])
  with assms(4) show ?thesis
    using heal_action_action [of gs n] by auto
next
  case False
  then have d: "decide memory gs =
      (case decide_combat gs of
         Inl err \<Rightarrow> Inl err
       | Inr (Some act, gs') \<Rightarrow> Inr (act, gs')
       | Inr (None, gs') \<Rightarrow> Inr (decide_explore memory gs', gs'))"
    using assms(3) by (auto simp: decide_past_critical_heal [OF assms(1,2)])
  show ?thesis
  proof (cases "decide_combat gs")
    case (Inl e)
    with d assms(4) show ?thesis by simp
  next
    case (Inr res)
    obtain a g where res: "res = (a, g)" by (cases res)
    show ?thesis
    proof (cases a)
      case None
      with d Inr res assms(4) have "act = decide_explore memory g" by simp
      then show ?thesis using decide_explore_action [of memory g n] by simp
    next
      case (Some a')
      with d Inr res assms(4) have "act = a'" by simp
      moreover have "\<exists>t. a' = Attack t"
        using decide_combat_action Inr res Some by blast
      ultimately show ?thesis by auto
    qed
  qed
qed


lemma best_nearby_weapon_decomp:
  assumes "weapons_nearby gs \<noteq> []"
  shows "\<exists>bw pre post. best_nearby_weapon gs = Some bw \<and> weapons_nearby gs = pre @ bw # post
     \<and> (\<forall>w \<in> set pre. score w < score bw) \<and> (\<forall>w \<in> set post. score w \<le> score bw)"
proof -
  from assms obtain w ws where ws: "weapons_nearby gs = w # ws"
    by (cases "weapons_nearby gs") simp_all
  then have "best_nearby_weapon gs = Some (max_from score w ws)"
    by (simp add: best_nearby_weapon_def)
  then show ?thesis
    using max_from_decomp [of w ws score] ws by simp
qed

text \<open>
  Claim C8. When zone escape and critical heal do not fire and \<open>weapons_nearby\<close> is not
  empty, let \<open>bw\<close> be the highest-scoring nearby weapon (the first one, if several score
  highest). Then \<open>decide\<close> returns a \<open>move_to_weapon\<close> action exactly when \<open>bw\<close> is an upgrade
  over the held weapon, the path safety (0.90 above distance 200, 0.75 above 100, 0.55
  above 50, else 0.30) is at least 0.65, and it is not the case that the distance is below
  40 with the shrink timer below 8. The action it then returns names \<open>bw\<close> and the snapshot
  is left as it was.
\<close>

theorem weapon_hunt_spec:
  assumes "\<not> zone_critical gs"
    and "\<not> (hp_pct gs < 35 \<and> truthy (best_heal gs))"
    and "weapons_nearby gs \<noteq> []"
  shows "\<exists>bw pre post.
      best_nearby_weapon gs = Some bw \<and> weapons_nearby gs = pre @ bw # post
      \<and> (\<forall>w \<in> set pre. score w < score bw) \<and> (\<forall>w \<in> set post. score w \<le> score bw)
      \<and> safe_path_prob gs =
          (if z_distance (zone gs) > 200 then 0.90 else if z_distance (zone gs) > 100 then 0.75
           else if z_distance (zone gs) > 50 then 0.55 else 0.30)
      \<and> ((\<exists>n gs'. decide memory gs = Inr (MoveToWeapon n, gs'))
           \<longleftrightarrow> is_upgrade_over bw (weapon gs) = Inr True \<and> safe_path_prob gs \<ge> 0.65
               \<and> \<not> (z_distance (zone gs) < 40 \<and> z_shrink_timer (zone gs) < 8))
      \<and> (\<forall>n gs'. decide memory gs = Inr (MoveToWeapon n, gs') \<longrightarrow> n = w_name bw \<and> gs' = gs)"
proof -
  from best_nearby_weapon_decomp [OF assms(3)] obtain bw pre post where
    bw: "best_nearby_weapon gs = Some bw" and dec: "weapons_nearby gs = pre @ bw # post"
    and lt: "\<forall>w \<in> set pre. score w < score bw" and le: "\<forall>w \<in> set post. score w \<le> score bw"
    by blast
  let ?cond = "is_upgrade_over bw (weapon gs) = Inr True \<and> safe_path_prob gs \<ge> 0.65
               \<and> \<not> (z_distance (zone gs) < 40 \<and> z_shrink_timer (zone gs) < 8)"
  obtain b where up: "is_upgrade_over bw (weapon gs) = Inr b"
    using is_upgrade_over_returns by blast
  have dw: "decide_weapon gs = (if ?cond then Inr (Some (MoveToWeapon (w_name bw))) else Inr None)"
    using bw up by (simp add: decide_weapon_def SAFE_PATH_MIN_def weapon_in_zone_trajectory_def)
  have yes: "decide memory gs = Inr (MoveToWeapon (w_name bw), gs)" if ?cond
    using that dw by (simp add: decide_past_critical_heal [OF assms(1,2)])
  have no: "decide memory gs \<noteq> Inr (MoveToWeapon n, gs')" if "\<not> ?cond" for n gs'
  proof
    assume "decide memory gs = Inr (MoveToWeapon n, gs')"
    moreover have "decide_weapon gs = Inr None"
      using that dw by (simp only: if_False)
    ultimately show False
      using decide_after_weapon [OF assms(1,2)] by blast
  qed
  have iff: "(\<exists>n gs'. decide memory gs = Inr (MoveToWeapon n, gs')) \<longleftrightarrow> ?cond"
    using yes no by blast
  have only: "\<forall>n gs'. decide memory gs = Inr (MoveToWeapon n, gs') \<longrightarrow> n = w_name bw \<and> gs' = gs"
  proof (intro allI impI)
    fix n gs' assume d: "decide memory gs = Inr (MoveToWeapon n, gs')"
    then have ?cond using no by blast
    then have "decide memory gs = Inr (MoveToWeapon (w_name bw), gs)" by (rule yes)
    with d show "n = w_name bw \<and> gs' = gs" by simp
  qed
  have sp: "safe_path_prob gs =
          (if z_distance (zone gs) > 200 then 0.90 else if z_distance (zone gs) > 100 then 0.75
           else if z_distance (zone gs) > 50 then 0.55 else 0.30)"
    by (simp add: safe_path_prob_def Let_def)
  from bw dec lt le sp iff only show ?thesis
    by blast
qed

text \<open>
  Witness: health 80 percent, distance to safety 250, a held weapon of score 10 and three
  nearby weapons of scores 12, 13 and 13: the first of score 13 is hunted.
\<close>

theorem weapon_hunt_spec_witness:
  "decide init_memory
     (default_gs\<lparr> hp := 80, weapon := Some (default_weapon ''pistol''\<lparr>w_dps := 10\<rparr>),
        zone := default_zone\<lparr>z_distance := 250\<rparr>,
        weapons_nearby := [default_weapon ''smg''\<lparr>w_dps := 12\<rparr>,
                           default_weapon ''rifle''\<lparr>w_dps := 13\<rparr>,
                           default_weapon ''carbine''\<lparr>w_dps := 13\<rparr>] \<rparr>)
   = Inr (MoveToWeapon ''rifle'',
      default_gs\<lparr> hp := 80, weapon := Some (default_weapon ''pistol''\<lparr>w_dps := 10\<rparr>),
        zone := default_zone\<lparr>z_distance := 250\<rparr>,
        weapons_nearby := [default_weapon ''smg''\<lparr>w_dps := 12\<rparr>,
                           default_weapon ''rifle''\<lparr>w_dps := 13\<rparr>,
                           default_weapon ''carbine''\<lparr>w_dps := 13\<rparr>] \<rparr>)"
proof -
  let ?pistol = "default_weapon ''pistol''\<lparr>w_dps := 10\<rparr>"
  let ?rifle = "default_weapon ''rifle''\<lparr>w_dps := 13\<rparr>"
  let ?g = "default_gs\<lparr> hp := 80, weapon := Some ?pistol,
        zone := default_zone\<lparr>z_distance := 250\<rparr>,
        weapons_nearby := [default_weapon ''smg''\<lparr>w_dps := 12\<rparr>, ?rifle,
                           default_weapon ''carbine''\<lparr>w_dps := 13\<rparr>] \<rparr>"
  have h1: "\<not> zone_critical ?g"
    by (simp add: zone_critical_def hp_pct_def HP_ZONE_ABORT_def eval_defs)
  have h2: "\<not> (hp_pct ?g < 35 \<and> truthy (best_heal ?g))"
    by (simp add: hp_pct_def eval_defs)
  have h3: "weapons_nearby ?g \<noteq> []"
    by (simp add: eval_defs)
  from weapon_hunt_spec [OF h1 h2 h3, of init_memory] obtain bw where
    bw: "best_nearby_weapon ?g = Some bw"
    and iff: "(\<exists>n gs'. decide init_memory ?g = Inr (MoveToWeapon n, gs'))
           \<longleftrightarrow> is_upgrade_over bw (weapon ?g) = Inr True \<and> safe_path_prob ?g \<ge> 0.65
               \<and> \<not> (z_distance (zone ?g) < 40 \<and> z_shrink_timer (zone ?g) < 8)"
    and only: "\<forall>n gs'. decide init_memory ?g = Inr (MoveToWeapon n, gs') \<longrightarrow> n = w_name bw \<and> gs' = ?g"
    by blast
  have "best_nearby_weapon ?g = Some ?rifle"
    by (simp add: best_nearby_weapon_def eval_defs)
  with bw have bw_eq: "bw = ?rifle" by simp
  have "is_upgrade_over ?rifle (weapon ?g) = Inr True"
    by (simp add: is_upgrade_over_def py_div_def WEAPON_UPGRADE_PCT_def eval_defs)
  moreover have "safe_path_prob ?g \<ge> 0.65"
    by (simp add: safe_path_prob_def eval_defs)
  moreover have "\<not> (z_distance (zone ?g) < 40 \<and> z_shrink_timer (zone ?g) < 8)"
    by (simp add: eval_defs)
  ultimately obtain n gs' where d: "decide init_memory ?g = Inr (MoveToWeapon n, gs')"
    using iff bw_eq by blast
  with only have "n = w_name bw \<and> gs' = ?g" by blast
  then have "n = ''rifle''" and "gs' = ?g"
    using bw_eq by (simp_all add: eval_defs)
  with d show ?thesis by simp
qed

section \<open>Target selection\<close>

lemma win_prob_lock [simp]:
  "win_prob (gs\<lparr> locked_target := a, target_id := b \<rparr>) e = win_prob gs e"
  by (simp add: win_prob_def position_advantage_def)

text \<open>
  Whatever the selection loop returns is the running best or an enemy of the list that is
  outside the zone and on which the win probability was computed.
\<close>

lemma select_target_loop_sound:
  "select_target_loop gs es best bs = Inr (Some t) \<Longrightarrow>
     best = Some t \<or> (t \<in> set es \<and> \<not> e_in_zone t \<and> (\<exists>wp. win_prob gs t = Inr wp))"
proof (induction es arbitrary: best bs)
  case Nil
  then show ?case by simp
next
  case (Cons e es)
  show ?case
  proof (cases "e_in_zone e")
    case True
    with Cons.prems have "select_target_loop gs es best bs = Inr (Some t)" by simp
    from Cons.IH [OF this] show ?thesis by auto
  next
    case False
    show ?thesis
    proof (cases "win_prob gs e")
      case (Inl err)
      with False Cons.prems show ?thesis by simp
    next
      case (Inr wp)
      let ?sc = "wp * (1.0 - enemy_hp_pct e / 100) / max (e_distance e) 1"
      show ?thesis
      proof (cases "wp \<ge> WIN_PROB_ENGAGE \<and> enemy_escape_prob e \<le> ESCAPE_PROB_MAX \<and> ?sc > bs")
        case True
        with False Inr Cons.prems have "select_target_loop gs es (Some e) ?sc = Inr (Some t)"
          by (simp add: Let_def)
        from Cons.IH [OF this] show ?thesis
          using False Inr by auto
      next
        case no: False
        with False Inr Cons.prems have "select_target_loop gs es best bs = Inr (Some t)"
          by (auto simp: Let_def split: if_splits)
        from Cons.IH [OF this] show ?thesis by auto
      qed
    qed
  qed
qed

lemma select_target_sound:
  assumes "select_target gs = Inr (Some t)"
  shows "t \<in> set (enemies gs) \<and> \<not> e_in_zone t \<and> (\<exists>wp. win_prob gs t = Inr wp)"
  using select_target_loop_sound [of gs "enemies gs" None "0.0" t] assms
  by (simp add: select_target_def)

lemma decide_combat_selected:
  assumes "select_target gs = Inr (Some t)"
  shows "decide_combat gs =
     Inr (Some (Attack (e_id t)), gs\<lparr> locked_target := Some t, target_id := Some (e_id t) \<rparr>)"
proof -
  from select_target_sound [OF assms] obtain wp where "\<not> e_in_zone t" "win_prob gs t = Inr wp"
    by blast
  with assms show ?thesis
    by (simp add: decide_combat_def Let_def)
qed

lemma decide_combat_attack:
  assumes "decide_combat gs = Inr (Some act, gs')"
  shows "\<exists>t. select_target gs = Inr (Some t) \<and> act = Attack (e_id t)
           \<and> gs' = gs\<lparr> locked_target := Some t, target_id := Some (e_id t) \<rparr>"
proof (cases "select_target gs")
  case (Inl err)
  with assms show ?thesis by (simp add: decide_combat_def)
next
  case (Inr r)
  show ?thesis
  proof (cases r)
    case None
    with Inr assms show ?thesis by (simp add: decide_combat_def)
  next
    case (Some t)
    with Inr have "select_target gs = Inr (Some t)" by simp
    from decide_combat_selected [OF this] assms this show ?thesis by simp
  qed
qed

lemma zone_escape_action_not_attack: "zone_escape_action gs \<noteq> Attack tid"
  by (simp add: zone_escape_action_def Let_def)

lemma heal_action_not_attack: "heal_action gs \<noteq> Attack tid"
  by (simp add: heal_action_def)

lemma decide_loot_not_attack: "decide_loot gs \<noteq> Attack tid"
  by (simp add: decide_loot_def split: option.splits)

lemma decide_explore_not_attack: "decide_explore memory gs \<noteq> Attack tid"
  by (simp add: decide_explore_def decide_loot_not_attack split: option.splits)

lemma decide_attack:
  assumes "decide memory gs = Inr (Attack tid, gs')"
  shows "decide_combat gs = Inr (Some (Attack tid), gs')"
proof -
  have nz: "\<not> zone_critical gs"
  proof
    assume "zone_critical gs"
    then have "decide memory gs = Inr (zone_escape_action gs, gs)"
      by (simp add: decide_def)
    with assms show False
      using zone_escape_action_not_attack [of gs tid] by simp
  qed
  have nh: "\<not> (hp_pct gs < 35 \<and> truthy (best_heal gs))"
  proof
    assume "hp_pct gs < 35 \<and> truthy (best_heal gs)"
    then have "decide memory gs = Inr (heal_action gs, gs)"
      using nz by (simp add: decide_def HP_DISENGAGE_def)
    with assms show False
      using heal_action_not_attack [of gs tid] by simp
  qed
  note d = decide_past_critical_heal [OF nz nh, of memory]
  have dw: "decide_weapon gs = Inr None"
  proof (rule ccontr)
    assume "decide_weapon gs \<noteq> Inr None"
    then obtain n where "decide_weapon gs = Inr (Some (MoveToWeapon n))"
      using decide_weapon_cases [of gs] by blast
    then have "decide memory gs = Inr (MoveToWeapon n, gs)"
      by (simp add: d)
    with assms show False by simp
  qed
  have nh2: "\<not> (hp_pct gs < HP_USE_HEAL \<and> truthy (best_heal gs))"
  proof
    assume "hp_pct gs < HP_USE_HEAL \<and> truthy (best_heal gs)"
    then have "decide memory gs = Inr (heal_action gs, gs)"
      using dw by (simp add: d)
    with assms show False
      using heal_action_not_attack [of gs tid] by simp
  qed
  have d2: "decide memory gs =
      (case decide_combat gs of
         Inl err \<Rightarrow> Inl err
       | Inr (Some act, gs') \<Rightarrow> Inr (act, gs')
       | Inr (None, gs') \<Rightarrow> Inr (decide_explore memory gs', gs'))"
    using dw nh2 by (auto simp: d)
  show ?thesis
  proof (cases "decide_combat gs")
    case (Inl err)
    with d2 assms show ?thesis by simp
  next
    case (Inr res)
    obtain a g where res: "res = (a, g)" by (cases res)
    show ?thesis
    proof (cases a)
      case None
      with d2 Inr res assms have "Attack tid = decide_explore memory g" by simp
      then show ?thesis using decide_explore_not_attack [of memory g tid] by simp
    next
      case (Some a')
      with d2 Inr res assms show ?thesis by simp
    qed
  qed
qed

text \<open>
  Claim C10. No target returned by target selection is inside the danger zone. So the
  branch of block 5 for a target inside the zone, with its test of kill time and escape
  probability, is never entered: on a selected target block 5 always returns the attack of
  the other branch and locks the target. And whenever \<open>decide\<close> returns an attack, its
  target id is the id of the selected enemy, which is in the enemies list and outside the
  zone.
\<close>

theorem selected_target_out_of_zone:
  "\<not> (\<exists>t. select_target gs = Inr (Some t) \<and> e_in_zone t)
   \<and> (select_target gs = Inr (Some t) \<longrightarrow>
        t \<in> set (enemies gs) \<and> \<not> e_in_zone t
        \<and> decide_combat gs =
            Inr (Some (Attack (e_id t)),
                 gs\<lparr> locked_target := Some t, target_id := Some (e_id t) \<rparr>))
   \<and> (decide memory gs = Inr (Attack tid, gs') \<longrightarrow>
        (\<exists>t' \<in> set (enemies gs). select_target gs = Inr (Some t') \<and> \<not> e_in_zone t'
            \<and> e_id t' = tid
            \<and> gs' = gs\<lparr> locked_target := Some t', target_id := Some tid \<rparr>))"
proof -
  have a: "\<not> (\<exists>t. select_target gs = Inr (Some t) \<and> e_in_zone t)"
    using select_target_sound by blast
  have b: "select_target gs = Inr (Some t) \<longrightarrow>
        t \<in> set (enemies gs) \<and> \<not> e_in_zone t
        \<and> decide_combat gs =
            Inr (Some (Attack (e_id t)),
                 gs\<lparr> locked_target := Some t, target_id := Some (e_id t) \<rparr>)"
    using select_target_sound [of gs t] decide_combat_selected [of gs t] by blast
  have c: "\<exists>t' \<in> set (enemies gs). select_target gs = Inr (Some t') \<and> \<not> e_in_zone t'
            \<and> e_id t' = tid
            \<and> gs' = gs\<lparr> locked_target := Some t', target_id := Some tid \<rparr>"
    if "decide memory gs = Inr (Attack tid, gs')"
  proof -
    from decide_attack [OF that] have "decide_combat gs = Inr (Some (Attack tid), gs')" .
    from decide_combat_attack [OF this] obtain t' where
      t': "select_target gs = Inr (Some t')" "Attack tid = Attack (e_id t')"
      "gs' = gs\<lparr> locked_target := Some t', target_id := Some (e_id t') \<rparr>"
      by blast
    moreover from select_target_sound [OF t'(1)] have "t' \<in> set (enemies gs)" "\<not> e_in_zone t'"
      by simp_all
    ultimately show ?thesis by auto
  qed
  from a b c show ?thesis by blast
qed

text \<open>
  Witness: a nearly dead enemy inside the zone is passed over, and a weak enemy at distance
  30 outside it is selected and attacked.
\<close>

theorem selected_target_out_of_zone_witness:
  "select_target
     (default_gs\<lparr> weapon := Some (default_weapon ''rifle''\<lparr>w_dps := 20\<rparr>),
        enemies := [default_enemy ''e1''\<lparr> e_hp := 5, e_in_zone := True \<rparr>,
                    default_enemy ''e2''\<lparr> e_hp := 20, e_distance := 30 \<rparr>] \<rparr>)
     = Inr (Some (default_enemy ''e2''\<lparr> e_hp := 20, e_distance := 30 \<rparr>))
   \<and> \<not> e_in_zone (default_enemy ''e2''\<lparr> e_hp := 20, e_distance := 30 \<rparr>)
   \<and> decide init_memory
     (default_gs\<lparr> weapon := Some (default_weapon ''rifle''\<lparr>w_dps := 20\<rparr>),
        enemies := [default_enemy ''e1''\<lparr> e_hp := 5, e_in_zone := True \<rparr>,
                    default_enemy ''e2''\<lparr> e_hp := 20, e_distance := 30 \<rparr>] \<rparr>)
     = Inr (Attack ''e2'',
        default_gs\<lparr> weapon := Some (default_weapon ''rifle''\<lparr>w_dps := 20\<rparr>),
          enemies := [default_enemy ''e1''\<lparr> e_hp := 5, e_in_zone := True \<rparr>,
                      default_enemy ''e2''\<lparr> e_hp := 20, e_distance := 30 \<rparr>],
          locked_target := Some (default_enemy ''e2''\<lparr> e_hp := 20, e_distance := 30 \<rparr>),
          target_id := Some ''e2'' \<rparr>)"
proof -
  let ?e2 = "default_enemy ''e2''\<lparr> e_hp := 20, e_distance := 30 \<rparr>"
  let ?g = "default_gs\<lparr> weapon := Some (default_weapon ''rifle''\<lparr>w_dps := 20\<rparr>),
        enemies := [default_enemy ''e1''\<lparr> e_hp := 5, e_in_zone := True \<rparr>, ?e2] \<rparr>"
  let ?g' = "?g\<lparr> locked_target := Some ?e2, target_id := Some (e_id ?e2) \<rparr>"
  have sel: "select_target ?g = Inr (Some ?e2)"
    by (simp add: select_target_def win_prob_def py_div_def position_advantage_def
        enemy_escape_prob_def enemy_hp_pct_def WIN_PROB_ENGAGE_def ESCAPE_PROB_MAX_def eval_defs)
  then have comb: "\<not> e_in_zone ?e2 \<and> decide_combat ?g = Inr (Some (Attack (e_id ?e2)), ?g')"
    using selected_target_out_of_zone [of ?g ?e2 init_memory "''e2''" ?g'] by blast
  have "\<not> zone_critical ?g"
    by (simp add: zone_critical_def hp_pct_def HP_ZONE_ABORT_def eval_defs)
  moreover have "hp_pct ?g = 100"
    by (simp add: hp_pct_def eval_defs)
  moreover have "decide_weapon ?g = Inr None"
    by (simp add: decide_weapon_def best_nearby_weapon_def eval_defs)
  ultimately have "decide init_memory ?g = Inr (Attack (e_id ?e2), ?g')"
    using comb by (simp add: decide_def HP_DISENGAGE_def HP_USE_HEAL_def)
  with sel comb show ?thesis
    by (simp add: eval_defs)
qed

section \<open>What target selection returns\<close>

text \<open>
  What the selection loop returns: either the running best, when no eligible enemy of the
  list ranks above \<open>best_score\<close>, or the first eligible enemy of maximal rank among those
  ranking above \<open>best_score\<close>.
\<close>

lemma select_target_loop_spec:
  assumes "select_target_loop gs es best bs = Inr r"
  shows "(r = best \<and>
          (\<forall>e \<in> set es. \<forall>wp. \<not> e_in_zone e \<and> win_prob gs e = Inr wp \<and> wp \<ge> 0.60
               \<and> enemy_escape_prob e \<le> 0.40
             \<longrightarrow> wp * (1 - enemy_hp_pct e / 100) / max (e_distance e) 1 \<le> bs))
       \<or> (\<exists>pre t post wt. es = pre @ t # post \<and> r = Some t
            \<and> \<not> e_in_zone t \<and> win_prob gs t = Inr wt \<and> wt \<ge> 0.60
            \<and> enemy_escape_prob t \<le> 0.40
            \<and> wt * (1 - enemy_hp_pct t / 100) / max (e_distance t) 1 > bs
            \<and> (\<forall>e \<in> set pre. \<forall>wp. \<not> e_in_zone e \<and> win_prob gs e = Inr wp \<and> wp \<ge> 0.60
                   \<and> enemy_escape_prob e \<le> 0.40
                 \<longrightarrow> wp * (1 - enemy_hp_pct e / 100) / max (e_distance e) 1
                       < wt * (1 - enemy_hp_pct t / 100) / max (e_distance t) 1)
            \<and> (\<forall>e \<in> set post. \<forall>wp. \<not> e_in_zone e \<and> win_prob gs e = Inr wp \<and> wp \<ge> 0.60
                   \<and> enemy_escape_prob e \<le> 0.40
                 \<longrightarrow> wp * (1 - enemy_hp_pct e / 100) / max (e_distance e) 1
                       \<le> wt * (1 - enemy_hp_pct t / 100) / max (e_distance t) 1))"
  (is "?A es best bs \<or> ?B es bs")
  using assms
proof (induction es arbitrary: best bs)
  case Nil
  then show ?case by simp
next
  case (Cons x xs)
  define elig where "elig = (\<lambda>e wp. \<not> e_in_zone e \<and> win_prob gs e = Inr wp \<and> wp \<ge> 0.60
                   \<and> enemy_escape_prob e \<le> 0.40)"
  define rank where "rank = (\<lambda>e wp. wp * (1 - enemy_hp_pct e / 100) / max (e_distance e) 1)"
  have IH: "(r = b \<and> (\<forall>e \<in> set xs. \<forall>wp. elig e wp \<longrightarrow> rank e wp \<le> s))
       \<or> (\<exists>pre t post wt. xs = pre @ t # post \<and> r = Some t \<and> elig t wt \<and> rank t wt > s
            \<and> (\<forall>e \<in> set pre. \<forall>wp. elig e wp \<longrightarrow> rank e wp < rank t wt)
            \<and> (\<forall>e \<in> set post. \<forall>wp. elig e wp \<longrightarrow> rank e wp \<le> rank t wt))"
    if "select_target_loop gs xs b s = Inr r" for b s
    using Cons.IH [OF that] unfolding elig_def rank_def by blast
  have goal: "(r = best \<and> (\<forall>e \<in> set (x # xs). \<forall>wp. elig e wp \<longrightarrow> rank e wp \<le> bs))
       \<or> (\<exists>pre t post wt. x # xs = pre @ t # post \<and> r = Some t \<and> elig t wt \<and> rank t wt > bs
            \<and> (\<forall>e \<in> set pre. \<forall>wp. elig e wp \<longrightarrow> rank e wp < rank t wt)
            \<and> (\<forall>e \<in> set post. \<forall>wp. elig e wp \<longrightarrow> rank e wp \<le> rank t wt))"
  proof (cases "\<exists>wx. elig x wx \<and> rank x wx > bs")
    case True
    then obtain wx where wx: "elig x wx" "rank x wx > bs" by blast
    then have "select_target_loop gs (x # xs) best bs
               = select_target_loop gs xs (Some x) (rank x wx)"
      by (simp add: elig_def rank_def Let_def WIN_PROB_ENGAGE_def ESCAPE_PROB_MAX_def)
    with Cons.prems have "select_target_loop gs xs (Some x) (rank x wx) = Inr r" by simp
    from IH [OF this] show ?thesis
    proof
      assume a: "r = Some x \<and> (\<forall>e \<in> set xs. \<forall>wp. elig e wp \<longrightarrow> rank e wp \<le> rank x wx)"
      have "x # xs = [] @ x # xs" by simp
      moreover have "\<forall>e \<in> set []. \<forall>wp. elig e wp \<longrightarrow> rank e wp < rank x wx" by simp
      ultimately show ?thesis
        using a wx by blast
    next
      assume "\<exists>pre t post wt. xs = pre @ t # post \<and> r = Some t \<and> elig t wt
            \<and> rank t wt > rank x wx
            \<and> (\<forall>e \<in> set pre. \<forall>wp. elig e wp \<longrightarrow> rank e wp < rank t wt)
            \<and> (\<forall>e \<in> set post. \<forall>wp. elig e wp \<longrightarrow> rank e wp \<le> rank t wt)"
      then obtain pre t post wt where b:
        "xs = pre @ t # post" "r = Some t" "elig t wt" "rank t wt > rank x wx"
        "\<forall>e \<in> set pre. \<forall>wp. elig e wp \<longrightarrow> rank e wp < rank t wt"
        "\<forall>e \<in> set post. \<forall>wp. elig e wp \<longrightarrow> rank e wp \<le> rank t wt"
        by blast
      have "x # xs = (x # pre) @ t # post"
        using b(1) by simp
      moreover have "\<forall>e \<in> set (x # pre). \<forall>wp. elig e wp \<longrightarrow> rank e wp < rank t wt"
      proof (intro ballI allI impI)
        fix e wp assume "e \<in> set (x # pre)" and el: "elig e wp"
        then consider "e = x" | "e \<in> set pre" by auto
        then show "rank e wp < rank t wt"
        proof cases
          case 1
          with el wx(1) have "wp = wx" by (simp add: elig_def)
          with 1 b(4) show ?thesis by simp
        next
          case 2
          with el b(5) show ?thesis by blast
        qed
      qed
      moreover have "rank t wt > bs"
        using b(4) wx(2) by simp
      ultimately show ?thesis
        using b(2,3,6) by blast
    qed
  next
    case False
    then have skip: "\<forall>wp. elig x wp \<longrightarrow> rank x wp \<le> bs"
      by (auto simp: not_less)
    have "select_target_loop gs (x # xs) best bs = select_target_loop gs xs best bs"
    proof (cases "e_in_zone x")
      case True
      then show ?thesis by simp
    next
      case nz: False
      show ?thesis
      proof (cases "win_prob gs x")
        case (Inl err)
        with nz Cons.prems show ?thesis by simp
      next
        case (Inr wp)
        with nz False show ?thesis
          by (auto simp: elig_def rank_def Let_def WIN_PROB_ENGAGE_def ESCAPE_PROB_MAX_def)
      qed
    qed
    with Cons.prems have "select_target_loop gs xs best bs = Inr r"
      by simp
    from IH [OF this] show ?thesis
    proof
      assume "r = best \<and> (\<forall>e \<in> set xs. \<forall>wp. elig e wp \<longrightarrow> rank e wp \<le> bs)"
      then show ?thesis using skip by simp
    next
      assume "\<exists>pre t post wt. xs = pre @ t # post \<and> r = Some t \<and> elig t wt \<and> rank t wt > bs
            \<and> (\<forall>e \<in> set pre. \<forall>wp. elig e wp \<longrightarrow> rank e wp < rank t wt)
            \<and> (\<forall>e \<in> set post. \<forall>wp. elig e wp \<longrightarrow> rank e wp \<le> rank t wt)"
      then obtain pre t post wt where b:
        "xs = pre @ t # post" "r = Some t" "elig t wt" "rank t wt > bs"
        "\<forall>e \<in> set pre. \<forall>wp. elig e wp \<longrightarrow> rank e wp < rank t wt"
        "\<forall>e \<in> set post. \<forall>wp. elig e wp \<longrightarrow> rank e wp \<le> rank t wt"
        by blast
      have "x # xs = (x # pre) @ t # post"
        using b(1) by simp
      moreover have "\<forall>e \<in> set (x # pre). \<forall>wp. elig e wp \<longrightarrow> rank e wp < rank t wt"
      proof (intro ballI allI impI)
        fix e wp assume "e \<in> set (x # pre)" and el: "elig e wp"
        then consider "e = x" | "e \<in> set pre" by auto
        then show "rank e wp < rank t wt"
        proof cases
          case 1
          with el skip have "rank e wp \<le> bs" by simp
          with b(4) show ?thesis by simp
        next
          case 2
          with el b(5) show ?thesis by blast
        qed
      qed
      ultimately show ?thesis
        using b(2,3,4,6) by blast
    qed
  qed
  then show ?case
    unfolding elig_def rank_def by blast
qed


lemma select_target_spec:
  assumes "select_target gs = Inr r"
  shows "(r = None \<and>
          (\<forall>e \<in> set (enemies gs). \<forall>wp. \<not> e_in_zone e \<and> win_prob gs e = Inr wp \<and> wp \<ge> 0.60
               \<and> enemy_escape_prob e \<le> 0.40
             \<longrightarrow> wp * (1 - enemy_hp_pct e / 100) / max (e_distance e) 1 \<le> 0))
       \<or> (\<exists>pre t post wt. enemies gs = pre @ t # post \<and> r = Some t
            \<and> \<not> e_in_zone t \<and> win_prob gs t = Inr wt \<and> wt \<ge> 0.60
            \<and> enemy_escape_prob t \<le> 0.40
            \<and> wt * (1 - enemy_hp_pct t / 100) / max (e_distance t) 1 > 0
            \<and> (\<forall>e \<in> set pre. \<forall>wp. \<not> e_in_zone e \<and> win_prob gs e = Inr wp \<and> wp \<ge> 0.60
                   \<and> enemy_escape_prob e \<le> 0.40
                 \<longrightarrow> wp * (1 - enemy_hp_pct e / 100) / max (e_distance e) 1
                       < wt * (1 - enemy_hp_pct t / 100) / max (e_distance t) 1)
            \<and> (\<forall>e \<in> set post. \<forall>wp. \<not> e_in_zone e \<and> win_prob gs e = Inr wp \<and> wp \<ge> 0.60
                   \<and> enemy_escape_prob e \<le> 0.40
                 \<longrightarrow> wp * (1 - enemy_hp_pct e / 100) / max (e_distance e) 1
                       \<le> wt * (1 - enemy_hp_pct t / 100) / max (e_distance t) 1))"
proof -
  from assms have "select_target_loop gs (enemies gs) None 0 = Inr r"
    by (simp add: select_target_def)
  from select_target_loop_spec [OF this] show ?thesis .
qed

text \<open>
  Claim C3. Target selection considers only enemies outside the zone with win probability
  at least 0.60 and escape probability at most 0.40, and whenever some enemy is eligible
  it returns an eligible enemy of maximal rank
  \<open>win_prob * (1 - hp_pct / 100) / max(distance, 1)\<close>, the first of them in the list.

  The code does not return an eligible enemy whenever there is one: the loop starts from
  \<open>best_score = 0.0\<close> and replaces the best only on a strictly greater rank, so an
  eligible enemy of rank 0 (any enemy at full health) is never selected. On the snapshot
  below the only enemy is outside the zone, at full health, with win probability \<open>2/3\<close>
  and escape probability 0.35, hence eligible; \<open>_select_target\<close> returns \<open>None\<close> and
  \<open>decide\<close> goes exploring instead of attacking. The lemma \<open>select_target_spec\<close> above
  states what the loop does return: the first eligible enemy of maximal rank among those
  of positive rank.
\<close>

theorem select_target_misses_full_health:
  "\<not> e_in_zone (default_enemy ''e1'')
   \<and> win_prob (default_gs\<lparr> weapon := Some (default_weapon ''rifle''\<lparr>w_dps := 20\<rparr>),
                          enemies := [default_enemy ''e1''] \<rparr>) (default_enemy ''e1'')
       = Inr (2 / 3)
   \<and> 2 / 3 \<ge> WIN_PROB_ENGAGE
   \<and> enemy_escape_prob (default_enemy ''e1'') = 0.35
   \<and> 0.35 \<le> ESCAPE_PROB_MAX
   \<and> select_target (default_gs\<lparr> weapon := Some (default_weapon ''rifle''\<lparr>w_dps := 20\<rparr>),
                                enemies := [default_enemy ''e1''] \<rparr>) = Inr None
   \<and> decide init_memory (default_gs\<lparr> weapon := Some (default_weapon ''rifle''\<lparr>w_dps := 20\<rparr>),
                                      enemies := [default_enemy ''e1''] \<rparr>)
       = Inr (MoveToRegion ''central'',
              default_gs\<lparr> weapon := Some (default_weapon ''rifle''\<lparr>w_dps := 20\<rparr>),
                          enemies := [default_enemy ''e1''] \<rparr>)"
proof -
  let ?e = "default_enemy ''e1''"
  let ?g = "default_gs\<lparr> weapon := Some (default_weapon ''rifle''\<lparr>w_dps := 20\<rparr>),
                        enemies := [?e] \<rparr>"
  have wp: "win_prob ?g ?e = Inr (2 / 3)"
    by (simp add: win_prob_def py_div_def position_advantage_def eval_defs)
  have ep: "enemy_escape_prob ?e = 0.35"
    by (simp add: enemy_escape_prob_def enemy_hp_pct_def eval_defs)
  have pct: "enemy_hp_pct ?e = 100"
    by (simp add: enemy_hp_pct_def eval_defs)
  have en: "enemies ?g = [?e]" and nz: "\<not> e_in_zone ?e"
    by (simp_all add: eval_defs)
  have sel: "select_target ?g = Inr None"
    unfolding select_target_def en
    by (simp add: nz wp ep pct WIN_PROB_ENGAGE_def ESCAPE_PROB_MAX_def del: win_prob_lock)
  have "\<not> zone_critical ?g"
    by (simp add: zone_critical_def hp_pct_def HP_ZONE_ABORT_def eval_defs)
  moreover have "hp_pct ?g = 100"
    by (simp add: hp_pct_def eval_defs)
  moreover have "decide_weapon ?g = Inr None"
    by (simp add: decide_weapon_def best_nearby_weapon_def eval_defs)
  moreover have "decide_combat ?g = Inr (None, ?g)"
    by (simp add: decide_combat_def sel)
  moreover have "decide_explore init_memory ?g = MoveToRegion ''central''"
    by (simp add: decide_explore_def choose_region_def best_region_def is_worthwhile_def
        rvs_def init_memory_def RVS_BASE_def RVS_FLOOR_def eval_defs)
  ultimately have "decide init_memory ?g = Inr (MoveToRegion ''central'', ?g)"
    by (simp add: decide_def HP_DISENGAGE_def HP_USE_HEAL_def)
  with wp ep sel nz show ?thesis
    by (simp add: WIN_PROB_ENGAGE_def ESCAPE_PROB_MAX_def)
qed

section \<open>Totality of the decision\<close>

text \<open>
  With non-negative health, vision modifier and weapon dps the quotient \<open>raw\<close> is not
  negative, so \<open>raw + 1.0\<close> is not zero and nothing raises.
\<close>

lemma win_prob_returns:
  assumes "hp gs \<ge> 0" and "vision_modifier gs \<ge> 0"
    and "\<forall>w. weapon gs = Some w \<longrightarrow> w_dps w \<ge> 0"
  shows "\<exists>wp. win_prob gs e = Inr wp"
proof -
  define my_dps where "my_dps = (case weapon gs of Some w \<Rightarrow> w_dps w | None \<Rightarrow> 5.0)"
  define vis_adv where "vis_adv = (if vision_modifier gs < 0.5 \<and> e_distance e > 60
                     then vision_modifier gs * 0.6 else vision_modifier gs)"
  define numerator where "numerator = my_dps * hp gs * position_advantage gs e * vis_adv"
  define denominator where
    "denominator = max (e_dps e) 0.1 * max (e_hp e) 0.1 * max 1.0 (e_distance e / 50.0)"
  have "my_dps \<ge> 0"
    using assms(3) by (cases "weapon gs") (simp_all add: my_dps_def)
  moreover have "vis_adv \<ge> 0"
    using assms(2) by (simp add: vis_adv_def)
  ultimately have num: "numerator \<ge> 0"
    using assms(1) by (simp add: numerator_def position_advantage_def)
  have "max (e_dps e) 0.1 > 0" and "max (e_hp e) 0.1 > 0" and "max 1.0 (e_distance e / 50.0) > 0"
    by (simp_all add: less_max_iff_disj)
  then have den: "denominator > 0"
    unfolding denominator_def by (intro mult_pos_pos)
  then have raw: "py_div numerator denominator = Inr (numerator / denominator)"
    by (simp add: py_div_def)
  have "numerator / denominator \<ge> 0"
    using num den by simp
  then have "numerator / denominator + 1.0 \<noteq> 0"
    by simp
  then have "\<exists>s. py_div (numerator / denominator) (numerator / denominator + 1.0) = Inr s"
    by (simp add: py_div_def)
  then obtain s where s: "py_div (numerator / denominator) (numerator / denominator + 1.0) = Inr s"
    by blast
  have "win_prob gs e = Inr (min 1.0 (max 0.0 s))"
    unfolding win_prob_def Let_def
    using raw s
    unfolding numerator_def denominator_def my_dps_def vis_adv_def
    by simp
  then show ?thesis by blast
qed

lemma select_target_loop_returns:
  assumes "\<forall>e \<in> set es. \<exists>wp. win_prob gs e = Inr wp"
  shows "\<exists>r. select_target_loop gs es best bs = Inr r"
  using assms
proof (induction es arbitrary: best bs)
  case Nil
  show ?case by simp
next
  case (Cons e es)
  then obtain wp where wp: "win_prob gs e = Inr wp" by auto
  have rest: "\<exists>r. select_target_loop gs es b s = Inr r" for b s
    using Cons by simp
  show ?case
    using rest wp by (simp add: Let_def)
qed

lemma decide_combat_returns:
  assumes "select_target gs = Inr r"
  shows "\<exists>res. decide_combat gs = Inr res"
proof (cases r)
  case None
  with assms show ?thesis by (simp add: decide_combat_def)
next
  case (Some t)
  with assms have "select_target gs = Inr (Some t)" by simp
  from decide_combat_selected [OF this] show ?thesis by simp
qed

lemma decide_returns_if_select_target_returns:
  assumes "select_target gs = Inr r"
  shows "\<exists>act gs'. decide memory gs = Inr (act, gs')"
proof -
  obtain res where c: "decide_combat gs = Inr res"
    using decide_combat_returns [OF assms] by blast
  obtain a g where res: "res = (a, g)" by (cases res)
  have w: "decide_weapon gs = Inr None \<or> (\<exists>n. decide_weapon gs = Inr (Some (MoveToWeapon n)))"
    by (rule decide_weapon_cases)
  show ?thesis
    using c res w unfolding decide_def
    by (cases a) (auto split: if_splits)
qed

lemma decide_returns:
  assumes "hp gs \<ge> 0" and "vision_modifier gs \<ge> 0"
    and "\<forall>w. weapon gs = Some w \<longrightarrow> w_dps w \<ge> 0"
  shows "\<exists>act gs'. decide memory gs = Inr (act, gs')"
proof -
  have "\<forall>e \<in> set (enemies gs). \<exists>wp. win_prob gs e = Inr wp"
    using win_prob_returns [OF assms] by blast
  then obtain r where "select_target gs = Inr r"
    unfolding select_target_def using select_target_loop_returns by blast
  then show ?thesis
    by (rule decide_returns_if_select_target_returns)
qed

lemma decide_patrol_fallback:
  assumes "choose_region memory gs = None \<or> choose_region memory gs = Some []
            \<or> choose_region memory gs = Some (current_region gs)"
    and "pick_loot gs = None \<or> pick_loot gs = Some []"
  shows "decide_explore memory gs = Patrol"
  using assms by (auto simp: decide_explore_def decide_loot_def)

text \<open>
  Claim C5. \<open>decide\<close> returns exactly one action on every snapshot and never raises.

  It returns an action on every snapshot with non-negative health, vision modifier and
  weapon dps (lemma \<open>decide_returns\<close> above), in particular with empty lists of enemies,
  loot and weapons and with no weapon held, and it falls back to patrol when no region
  and no loot is to be had (lemma \<open>decide_patrol_fallback\<close>). But \<open>_win_prob\<close> divides
  \<open>raw\<close> by \<open>raw + 1.0\<close> with no guard, while every other division of the engine is
  guarded, and \<open>raw = -1\<close> is reachable when the numerator is negative. On the snapshot
  below (a held weapon of dps \<open>-1\<close>, health 100, one enemy of dps 10 and hp 10 at distance
  50) \<open>raw = -100 / 100 = -1\<close> and \<open>decide\<close> raises \<open>ZeroDivisionError\<close>.
\<close>

theorem decide_raises_zero_division:
  "decide init_memory
     (default_gs\<lparr> weapon := Some (default_weapon ''cursed''\<lparr>w_dps := - 1\<rparr>),
                  enemies := [default_enemy ''e1''\<lparr> e_hp := 10 \<rparr>] \<rparr>)
   = Inl ZeroDivisionError"
proof -
  let ?e = "default_enemy ''e1''\<lparr> e_hp := 10 \<rparr>"
  let ?g = "default_gs\<lparr> weapon := Some (default_weapon ''cursed''\<lparr>w_dps := - 1\<rparr>),
                        enemies := [?e] \<rparr>"
  have wp: "win_prob ?g ?e = Inl ZeroDivisionError"
    by (simp add: win_prob_def py_div_def position_advantage_def eval_defs)
  have en: "enemies ?g = [?e]" and nz: "\<not> e_in_zone ?e"
    by (simp_all add: eval_defs)
  have sel: "select_target ?g = Inl ZeroDivisionError"
    unfolding select_target_def en
    by (simp only: select_target_loop.simps nz wp sum.case if_False)
  have "\<not> zone_critical ?g"
    by (simp add: zone_critical_def hp_pct_def HP_ZONE_ABORT_def eval_defs)
  moreover have "hp_pct ?g = 100"
    by (simp add: hp_pct_def eval_defs)
  moreover have "decide_weapon ?g = Inr None"
    by (simp add: decide_weapon_def best_nearby_weapon_def eval_defs)
  moreover have "decide_combat ?g = Inl ZeroDivisionError"
    by (simp add: decide_combat_def sel)
  ultimately show ?thesis
    by (simp add: decide_def HP_DISENGAGE_def HP_USE_HEAL_def)
qed

end
